theory Spec2Isabelle
  imports Complex_Main "HOL-Library.AList" "HOL-Library.Multiset"
begin

section \<open>Event history and versioning of the narrative state store\<close>

text \<open>
  The development embeds the history operations of \<^verbatim>\<open>src/lib/state.ts\<close>. Every
  operation of the source is a call \<^verbatim>\<open>getState().set((state) => ...)\<close> that mutates a
  draft of the state; here it is a function from the state to the state after the call.
  Positions and version indexes are the integers among the numbers of the source.
  Each reading of the clock (\<^verbatim>\<open>Date.now()\<close>) is an argument of the operation.
\<close>

subsection \<open>Data model\<close>

datatype event_type = action | narration | character_introduction | location_change

text \<open>
  An event is a tagged object; only its tag is inspected by the store. The payload of the
  four kinds (declared in the schemas of the application) is a type parameter.
\<close>

datatype 'p event = Event (event_type: event_type) (payload: 'p)

datatype history_type = edit | regenerate

record 'p event_history_entry =
  event :: "'p event"
  timestamp :: int
  type :: history_type

record 'p event_history =
  entries :: "'p event_history_entry list"
  currentVersionIndex :: int

text \<open>
  A plain object with string keys is the list of its own properties in creation order,
  each key once. Reading is \<open>map_of\<close>, assignment is \<open>AList.update\<close> (a new key goes
  to the end, an old one keeps its place) and \<^verbatim>\<open>delete\<close> is \<open>AList.delete\<close>.
\<close>

type_synonym 'v object = "(string \<times> 'v) list"

text \<open>The pagination state is the triple of event index, page and page size.\<close>

type_synonym history_pagination = "int \<times> int \<times> int"

text \<open>
  The state: the event log is an array whose slots may be holes (\<open>None\<close>, read as
  \<^verbatim>\<open>undefined\<close>), the history store is an optional object. The fields the history
  operations never touch are gathered in \<open>rest\<close>.
\<close>

record ('p, 'r) state =
  events :: "'p event option list"
  eventHistory :: "'p event_history object option"
  historyPagination :: "history_pagination option"
  rest :: 'r

subsection \<open>Arrays\<close>

definition array_get :: "'a option list \<Rightarrow> int \<Rightarrow> 'a option" where
  "array_get xs i = (if 0 \<le> i \<and> i < int (length xs) then xs ! nat i else None)"

text \<open>
  Assignment to an index past the end extends the array with holes. A negative index
  names a property that is no element: the elements stay as they are.
\<close>

definition array_set :: "'a option list \<Rightarrow> int \<Rightarrow> 'a \<Rightarrow> 'a option list" where
  "array_set xs i v =
     (if i < 0 then xs
      else if i < int (length xs) then xs[nat i := Some v]
      else xs @ replicate (nat i - length xs) None @ [Some v])"

text \<open>\<^verbatim>\<open>xs.splice(start, 1)\<close> for a start that is not negative.\<close>

definition splice1 :: "'a list \<Rightarrow> int \<Rightarrow> 'a list" where
  "splice1 xs start = take (nat start) xs @ drop (nat start + 1) xs"

text \<open>\<^verbatim>\<open>xs.slice(start, end)\<close>: a negative bound counts from the end.\<close>

definition slice :: "'a list \<Rightarrow> int \<Rightarrow> int \<Rightarrow> 'a list" where
  "slice xs start end' =
     (let len = int (length xs);
          k = (if start < 0 then max (len + start) 0 else min start len);
          final = (if end' < 0 then max (len + end') 0 else min end' len)
      in take (nat (final - k)) (drop (nat k) xs))"

subsection \<open>Keys: \<^verbatim>\<open>String(n)\<close> and \<^verbatim>\<open>Number.parseInt(s, 10)\<close>\<close>

text \<open>
  \<open>js_String\<close> prints an integer in decimal digits, as \<^verbatim>\<open>String\<close> does for every
  integer of magnitude below \<open>10^21\<close>; the positions of a log are far below.
  Strings are lists of bytes, and the white space that \<open>parseInt\<close> skips is the
  white space of ASCII.
\<close>

definition digit_char :: "nat \<Rightarrow> char" where
  "digit_char d = char_of (48 + d)"

fun digits :: "nat \<Rightarrow> string" where
  "digits n = (if n < 10 then [digit_char n] else digits (n div 10) @ [digit_char (n mod 10)])"

declare digits.simps [simp del]

definition js_String :: "int \<Rightarrow> string" where
  "js_String n = (if n < 0 then CHR ''-'' # digits (nat (- n)) else digits (nat n))"

definition is_digit :: "char \<Rightarrow> bool" where
  "is_digit c = (48 \<le> (of_char c :: nat) \<and> (of_char c :: nat) \<le> 57)"

definition is_space :: "char \<Rightarrow> bool" where
  "is_space c = ((of_char c :: nat) \<in> {9, 10, 11, 12, 13, 32})"

definition digit_value :: "char \<Rightarrow> nat" where
  "digit_value c = of_char c - 48"

definition digits_value :: "string \<Rightarrow> nat" where
  "digits_value ds = foldl (\<lambda>acc c. 10 * acc + digit_value c) 0 ds"

text \<open>
  \<open>parseInt\<close> skips leading white space, reads a sign and then the longest run of
  decimal digits; with no digit the result is \<^verbatim>\<open>NaN\<close>, here \<open>None\<close>.
\<close>

definition parseInt :: "string \<Rightarrow> int option" where
  "parseInt s =
     (let s1 = dropWhile is_space s;
          sign = (case s1 of c # _ \<Rightarrow> (if c = CHR ''-'' then - 1 else 1) | [] \<Rightarrow> (1::int));
          s2 = (case s1 of c # r \<Rightarrow> (if c = CHR ''-'' \<or> c = CHR ''+'' then r else s1) | [] \<Rightarrow> s1);
          ds = takeWhile is_digit s2
      in if ds = [] then None else Some (sign * int (digits_value ds)))"

text \<open>
  A key is the key of a position when it is what \<open>js_String\<close> prints for an integer
  that is not negative. Among these, the array indexes (below \<open>2^32 - 1\<close>) are the keys
  that \<^verbatim>\<open>Object.entries\<close> lists first, in ascending order; the other keys follow in
  creation order.
\<close>

definition key_index :: "string \<Rightarrow> int" where
  "key_index k = (case parseInt k of Some n \<Rightarrow> n | None \<Rightarrow> 0)"

definition is_index_key :: "string \<Rightarrow> bool" where
  "is_index_key k = (case parseInt k of Some n \<Rightarrow> 0 \<le> n \<and> js_String n = k | None \<Rightarrow> False)"

definition is_array_index :: "string \<Rightarrow> bool" where
  "is_array_index k = (is_index_key k \<and> key_index k < 2 ^ 32 - 1)"

definition Object_entries :: "'v object \<Rightarrow> (string \<times> 'v) list" where
  "Object_entries obj =
     sort_key (\<lambda>kv. key_index (fst kv)) (filter (\<lambda>kv. is_array_index (fst kv)) obj)
     @ filter (\<lambda>kv. \<not> is_array_index (fst kv)) obj"

subsection \<open>History operations\<close>

text \<open>\<^verbatim>\<open>state.eventHistory?.[key]\<close>\<close>

definition history_lookup :: "('p, 'r) state \<Rightarrow> string \<Rightarrow> 'p event_history option" where
  "history_lookup s key = (case eventHistory s of None \<Rightarrow> None | Some h \<Rightarrow> map_of h key)"

text \<open>The store after \<^verbatim>\<open>if (!state.eventHistory) state.eventHistory = {}\<close>.\<close>

definition history_store :: "('p, 'r) state \<Rightarrow> 'p event_history object" where
  "history_store s = (case eventHistory s of None \<Rightarrow> [] | Some h \<Rightarrow> h)"

text \<open>
  The one-entry history that \<open>ensureEventHistory\<close> and \<open>addEventHistoryVersion\<close>
  both build from the event found in the log.
\<close>

definition seed_history :: "'p event \<Rightarrow> int \<Rightarrow> 'p event_history" where
  "seed_history ev now =
     \<lparr>entries = [\<lparr>event = ev, timestamp = now,
                  type = (if event_type ev = action then edit else regenerate)\<rparr>],
      currentVersionIndex = 0\<rparr>"

definition ensureEventHistory :: "int \<Rightarrow> int \<Rightarrow> ('p, 'r) state \<Rightarrow> ('p, 'r) state" where
  "ensureEventHistory now eventIndex s =
     (if eventIndex < 0 then s
      else
        let key = js_String eventIndex;
            h = history_store s
        in case map_of h key of
             Some _ \<Rightarrow> s\<lparr>eventHistory := Some h\<rparr>
           | None \<Rightarrow>
               (case array_get (events s) eventIndex of
                  Some ev \<Rightarrow> s\<lparr>eventHistory := Some (AList.update key (seed_history ev now) h)\<rparr>
                | None \<Rightarrow> s\<lparr>eventHistory := Some h\<rparr>))"

text \<open>
  \<open>now0\<close> is the clock read for the seed entry, \<open>now1\<close> the clock read for the new
  version.
\<close>

definition addEventHistoryVersion ::
  "int \<Rightarrow> int \<Rightarrow> int \<Rightarrow> 'p event \<Rightarrow> history_type \<Rightarrow> ('p, 'r) state \<Rightarrow> ('p, 'r) state" where
  "addEventHistoryVersion now0 now1 eventIndex newEvent kind s =
     (if eventIndex < 0 then s
      else
        let key = js_String eventIndex;
            h0 = history_store s;
            h1 = (case map_of h0 key of
                    Some _ \<Rightarrow> h0
                  | None \<Rightarrow>
                      (case array_get (events s) eventIndex of
                         Some ev \<Rightarrow> AList.update key (seed_history ev now0) h0
                       | None \<Rightarrow> h0))
        in case map_of h1 key of
             Some history \<Rightarrow>
               let entries' = entries history @ [\<lparr>event = newEvent, timestamp = now1, type = kind\<rparr>];
                   history' = history\<lparr>entries := entries',
                                      currentVersionIndex := int (length entries') - 1\<rparr>
               in s\<lparr>eventHistory := Some (AList.update key history' h1),
                    events := array_set (events s) eventIndex newEvent\<rparr>
           | None \<Rightarrow> s\<lparr>eventHistory := Some h1\<rparr>)"

definition selectEventHistoryVersion :: "int \<Rightarrow> int \<Rightarrow> ('p, 'r) state \<Rightarrow> ('p, 'r) state" where
  "selectEventHistoryVersion eventIndex versionIndex s =
     (let key = js_String eventIndex
      in case history_lookup s key of
           Some history \<Rightarrow>
             if versionIndex \<ge> 0 \<and> versionIndex < int (length (entries history)) then
               s\<lparr>eventHistory :=
                    Some (AList.update key (history\<lparr>currentVersionIndex := versionIndex\<rparr>)
                            (history_store s)),
                  events := array_set (events s) eventIndex
                              (event (entries history ! nat versionIndex))\<rparr>
             else s
         | None \<Rightarrow> s)"

text \<open>
  In the branch of the deleted current version the index \<open>max 0 (versionIndex - 1)\<close>
  is below the length of the shortened list, which still has an entry.
\<close>

definition deleteEventHistoryVersion :: "int \<Rightarrow> int \<Rightarrow> ('p, 'r) state \<Rightarrow> ('p, 'r) state" where
  "deleteEventHistoryVersion eventIndex versionIndex s =
     (let key = js_String eventIndex
      in case history_lookup s key of
           None \<Rightarrow> s
         | Some history \<Rightarrow>
             if versionIndex < 0 \<or> versionIndex \<ge> int (length (entries history)) then s
             else if length (entries history) \<le> 1 then s
             else
               let wasCurrent = (currentVersionIndex history = versionIndex);
                   wasBeforeCurrent = (versionIndex < currentVersionIndex history);
                   entries' = splice1 (entries history) versionIndex
               in if wasCurrent then
                    let current' = max 0 (versionIndex - 1);
                        history' = history\<lparr>entries := entries', currentVersionIndex := current'\<rparr>
                    in s\<lparr>eventHistory := Some (AList.update key history' (history_store s)),
                         events := array_set (events s) eventIndex
                                     (event (entries' ! nat current'))\<rparr>
                  else if wasBeforeCurrent then
                    s\<lparr>eventHistory :=
                         Some (AList.update key
                                 (history\<lparr>entries := entries',
                                          currentVersionIndex := currentVersionIndex history - 1\<rparr>)
                                 (history_store s))\<rparr>
                  else
                    s\<lparr>eventHistory :=
                         Some (AList.update key (history\<lparr>entries := entries'\<rparr>) (history_store s))\<rparr>)"

subsection \<open>Pagination\<close>

definition getEventHistoryPage ::
  "int \<Rightarrow> int \<Rightarrow> int \<Rightarrow> ('p, 'r) state \<Rightarrow> 'p event_history_entry list" where
  "getEventHistoryPage eventIndex page pageSize s =
     (case history_lookup s (js_String eventIndex) of
        None \<Rightarrow> []
      | Some history \<Rightarrow>
          let start = page * pageSize;
              end' = start + pageSize
          in slice (entries history) start end')"




definition setHistoryPagination :: "int \<Rightarrow> int \<Rightarrow> int \<Rightarrow> ('p, 'r) state \<Rightarrow> ('p, 'r) state" where
  "setHistoryPagination eventIndex page pageSize s =
     s\<lparr>historyPagination := Some (eventIndex, page, pageSize)\<rparr>"

definition clearHistoryPagination :: "('p, 'r) state \<Rightarrow> ('p, 'r) state" where
  "clearHistoryPagination s = s\<lparr>historyPagination := None\<rparr>"

subsection \<open>Deleting an event\<close>

text \<open>The body of the loop over the entries of the store, on the object built so far.\<close>

definition rekey ::
  "int \<Rightarrow> string \<times> 'v \<Rightarrow> 'v object \<Rightarrow> 'v object" where
  "rekey eventIndex kv newHistory =
     (case parseInt (fst kv) of
        None \<Rightarrow> newHistory
      | Some histIndex \<Rightarrow>
          if histIndex > eventIndex then
            AList.update (js_String (histIndex - 1)) (snd kv) newHistory
          else if histIndex < eventIndex then
            AList.update (fst kv) (snd kv) newHistory
          else newHistory)"

definition deleteEvent :: "int \<Rightarrow> ('p, 'r) state \<Rightarrow> ('p, 'r) state" where
  "deleteEvent eventIndex s =
     (if eventIndex < 0 then s
      else
        let events' = splice1 (events s) eventIndex;
            key = js_String eventIndex;
            cleaned = (case eventHistory s of
                         None \<Rightarrow> None
                       | Some h \<Rightarrow>
                           (case map_of h key of
                              Some _ \<Rightarrow> Some (AList.delete key h)
                            | None \<Rightarrow> Some h))
        in case cleaned of
             None \<Rightarrow> s\<lparr>events := events'\<rparr>
           | Some h \<Rightarrow>
               s\<lparr>events := events',
                  eventHistory := Some (fold (rekey eventIndex) (Object_entries h) [])\<rparr>)"

subsection \<open>Invariants of the store\<close>

definition history_at :: "('p, 'r) state \<Rightarrow> int \<Rightarrow> 'p event_history option" where
  "history_at s p = history_lookup s (js_String p)"

text \<open>
  The store is well formed when it is an object (each key once) whose keys are keys of
  positions: the history store maps the stringified index of an event to its history.
\<close>

definition index_keyed :: "'v object \<Rightarrow> bool" where
  "index_keyed obj \<longleftrightarrow>
     distinct (map fst obj) \<and> list_all (\<lambda>kv. is_index_key (fst kv)) obj"

definition wf_store :: "('p, 'r) state \<Rightarrow> bool" where
  "wf_store s \<longleftrightarrow> index_keyed (history_store s)"

text \<open>
  The history of a position mirrors the log: its current index is an index of its entries
  and the current entry holds the event that the log holds at the position.
\<close>

definition mirrors_log :: "('p, 'r) state \<Rightarrow> int \<Rightarrow> bool" where
  "mirrors_log s p =
     (case history_at s p of
        None \<Rightarrow> True
      | Some h \<Rightarrow>
          0 \<le> currentVersionIndex h \<and> currentVersionIndex h < int (length (entries h)) \<and>
          array_get (events s) p = Some (event (entries h ! nat (currentVersionIndex h))))"

definition entry_consistent :: "'p event option list \<Rightarrow> string \<times> 'p event_history \<Rightarrow> bool" where
  "entry_consistent evs kh \<longleftrightarrow>
     0 \<le> currentVersionIndex (snd kh) \<and>
     currentVersionIndex (snd kh) < int (length (entries (snd kh))) \<and>
     array_get evs (key_index (fst kh))
       = Some (event (entries (snd kh) ! nat (currentVersionIndex (snd kh))))"

definition history_inv :: "('p, 'r) state \<Rightarrow> bool" where
  "history_inv s \<longleftrightarrow> wf_store s \<and> list_all (entry_consistent (events s)) (history_store s)"

definition all_nonempty :: "'p event_history object \<Rightarrow> bool" where
  "all_nonempty obj \<longleftrightarrow> list_all (\<lambda>kh. entries (snd kh) \<noteq> []) obj"

definition nonempty_histories :: "('p, 'r) state \<Rightarrow> bool" where
  "nonempty_histories s \<longleftrightarrow> all_nonempty (history_store s)"

definition initialState :: "'r \<Rightarrow> ('p, 'r) state" where
  "initialState r = \<lparr>events = [], eventHistory = Some [], historyPagination = None, rest = r\<rparr>"

text \<open>
  The states that the history operations reach from a state whose store has no entry,
  whatever its log.
\<close>

inductive reachable :: "('p, 'r) state \<Rightarrow> bool" where
  fresh: "history_store s = [] \<Longrightarrow> reachable s"
| ensure: "reachable s \<Longrightarrow> reachable (ensureEventHistory now p s)"
| add: "reachable s \<Longrightarrow> reachable (addEventHistoryVersion now0 now1 p e kind s)"
| select: "reachable s \<Longrightarrow> reachable (selectEventHistoryVersion p v s)"
| deleteVersion: "reachable s \<Longrightarrow> reachable (deleteEventHistoryVersion p v s)"
| deleteEvent: "reachable s \<Longrightarrow> reachable (deleteEvent p s)"

subsection \<open>Asynchronous update steps\<close>

text \<open>
  For \<^verbatim>\<open>set\<close> and \<^verbatim>\<open>setAsync\<close> the stored state is an object whose values they never
  inspect: a map from the keys it has to their values. Which keys a state has is not fixed
  (\<^verbatim>\<open>eventHistory\<close> and \<^verbatim>\<open>historyPagination\<close> may be missing), and a key holding
  \<^verbatim>\<open>undefined\<close> is a key like any other.

  \<^verbatim>\<open>set(nextState)\<close> with an object and no replace flag merges the object into the stored
  state, \<^verbatim>\<open>Object.assign({}, stored, nextState)\<close>: each key of the object overwrites the
  stored one and the other stored keys stay.
\<close>

type_synonym 'v store = "string \<rightharpoonup> 'v"

definition set_state :: "'v store \<Rightarrow> 'v store \<Rightarrow> 'v store" where
  "set_state nextState stored = stored ++ nextState"

text \<open>
  An updater is a callback on the draft. While it runs the store may be written (the
  source rolls back \<^emph>\<open>any changes the updater may have written to the state store\<close>).
  A run of the updater is what it leaves behind: the exception it threw, if any, the
  draft with the mutations made so far, and the store.
\<close>

record ('s, 'e) run =
  thrown :: "'e option"
  draft_after :: 's
  store_after :: 's

type_synonym ('v, 'e) updater = "'v store \<Rightarrow> 'v store \<Rightarrow> ('v store, 'e) run"

text \<open>
  \<open>setAsync\<close> returns the outcome of the promise (\<open>Inl\<close> the error it rejects with)
  and the store. Drafts are values here, so \<^verbatim>\<open>createDraft\<close> and \<^verbatim>\<open>finishDraft\<close> are
  the identity.
\<close>

definition setAsync :: "('v, 'e) updater \<Rightarrow> 'v store \<Rightarrow> ('e + unit) \<times> 'v store" where
  "setAsync updater stored =
     (let state = stored;
          draft = state;
          r = updater draft stored
      in case thrown r of
           Some error \<Rightarrow> (Inl error, set_state state (store_after r))
         | None \<Rightarrow> (Inr (), set_state (draft_after r) (store_after r)))"

subsection \<open>Example states\<close>

text \<open>
  The payload of the examples is a number. \<open>version n\<close> is a regenerated narration;
  \<open>example_state\<close> holds an action without history at position 0 and a narration at
  position 1 whose history has three versions, the last one current.
\<close>

definition version :: "nat \<Rightarrow> nat event_history_entry" where
  "version n = \<lparr>event = Event narration n, timestamp = int n, type = regenerate\<rparr>"

definition three_versions :: "nat event_history" where
  "three_versions = \<lparr>entries = [version 0, version 1, version 2], currentVersionIndex = 2\<rparr>"

definition example_state :: "(nat, unit) state" where
  "example_state =
     \<lparr>events = [Some (Event action 7), Some (Event narration 2)],
      eventHistory = Some [(''1'', three_versions)],
      historyPagination = None, rest = ()\<rparr>"

text \<open>\<open>sole_state\<close> holds one narration whose history has a single version.\<close>

definition sole_state :: "(nat, unit) state" where
  "sole_state =
     \<lparr>events = [Some (Event narration 0)],
      eventHistory = Some [(''0'', \<lparr>entries = [version 0], currentVersionIndex = 0\<rparr>)],
      historyPagination = None, rest = ()\<rparr>"

text \<open>
  \<open>rekey_state\<close> holds five narrations, with one-version histories at the positions
  1, 2 and 4.
\<close>

definition sole_history :: "nat \<Rightarrow> nat event_history" where
  "sole_history n = \<lparr>entries = [version n], currentVersionIndex = 0\<rparr>"

definition rekey_state :: "(nat, unit) state" where
  "rekey_state =
     \<lparr>events = map (\<lambda>n. Some (Event narration n)) [0, 1, 2, 3, 4],
      eventHistory = Some [(''1'', sole_history 1), (''2'', sole_history 2), (''4'', sole_history 4)],
      historyPagination = None, rest = ()\<rparr>"

text \<open>
  \<open>negative_key_state\<close> is not well formed: its store has a key that is the key of no
  position.
\<close>

definition negative_key_state :: "(nat, unit) state" where
  "negative_key_state =
     \<lparr>events = [], eventHistory = Some [(''-1'', three_versions)],
      historyPagination = None, rest = ()\<rparr>"

text \<open>\<open>twelve_state\<close> holds one narration whose history has twelve versions.\<close>

definition twelve_versions :: "nat event_history" where
  "twelve_versions = \<lparr>entries = map version [0..<12], currentVersionIndex = 11\<rparr>"

definition twelve_state :: "(nat, unit) state" where
  "twelve_state =
     \<lparr>events = [Some (Event narration 11)], eventHistory = Some [(''0'', twelve_versions)],
      historyPagination = None, rest = ()\<rparr>"

text \<open>
  Two snapshots of a store whose values are numbers: \<open>full_snapshot\<close> has the key
  \<^verbatim>\<open>historyPagination\<close>, \<open>partial_snapshot\<close> lacks it. \<open>failing_updater\<close> changes the
  events in the draft, and the events and the pagination in the store, and then throws;
  \<open>passing_updater\<close> changes the events in the draft and returns.
\<close>

definition partial_snapshot :: "nat store" where
  "partial_snapshot = [''events'' \<mapsto> 1, ''eventHistory'' \<mapsto> 0]"



definition passing_updater :: "(nat, string) updater" where
  "passing_updater draft stored =
     \<lparr>thrown = None, draft_after = draft(''events'' \<mapsto> 2), store_after = stored\<rparr>"

text \<open>\<open>scenario_state\<close> is the log of the single action \<^verbatim>\<open>go north\<close>, with an empty store.\<close>

definition scenario_state :: "(string, unit) state" where
  "scenario_state =
     \<lparr>events = [Some (Event action ''go north'')], eventHistory = Some [],
      historyPagination = None, rest = ()\<rparr>"

section \<open>Keys of positions\<close>

lemma digit_char_props: "d < 10 \<Longrightarrow> is_digit (digit_char d) \<and> digit_value (digit_char d) = d"
  by (simp add: is_digit_def digit_char_def digit_value_def)

lemma digits_all_digit: "c \<in> set (digits n) \<Longrightarrow> is_digit c"
proof (induction n arbitrary: c rule: digits.induct)
  case (1 n)
  show ?case
  proof (cases "n < 10")
    case True
    with "1.prems" show ?thesis
      by (simp add: digits.simps [of n] digit_char_props)
  next
    case False
    with "1.prems" "1.IH" show ?thesis
      by (auto simp add: digits.simps [of n] digit_char_props)
  qed
qed

lemma digits_nonempty: "digits n \<noteq> []"
  by (subst digits.simps) simp

lemma digits_value_snoc: "digits_value (ds @ [c]) = 10 * digits_value ds + digit_value c"
  by (simp add: digits_value_def)

lemma digits_value_digits: "digits_value (digits n) = n"
proof (induction n rule: digits.induct)
  case (1 n)
  show ?case
  proof (cases "n < 10")
    case True
    then show ?thesis
      by (simp add: digits.simps [of n] digits_value_def digit_char_props)
  next
    case False
    with "1.IH" show ?thesis
      by (simp add: digits.simps [of n] digits_value_snoc digit_char_props)
  qed
qed

lemma is_digit_not_space: "is_digit c \<Longrightarrow> \<not> is_space c"
  by (auto simp add: is_digit_def is_space_def)

lemma is_digit_not_sign: "is_digit c \<Longrightarrow> c \<noteq> CHR ''-'' \<and> c \<noteq> CHR ''+''"
  by (auto simp add: is_digit_def)

lemma parseInt_all_digits:
  assumes "ds \<noteq> []" and "\<forall>x\<in>set ds. is_digit x"
  shows "parseInt ds = Some (int (digits_value ds))"
proof -
  obtain c r where cr: "ds = c # r"
    using assms(1) by (cases ds) auto
  have c: "is_digit c" and r: "\<forall>x\<in>set r. is_digit x"
    using assms(2) cr by simp_all
  have tw: "takeWhile is_digit r = r"
    using r by (simp add: takeWhile_eq_all_conv)
  show ?thesis
    using c is_digit_not_space [OF c] is_digit_not_sign [OF c]
    by (simp add: parseInt_def cr tw)
qed

lemma parseInt_minus_digits:
  assumes "ds \<noteq> []" and "\<forall>x\<in>set ds. is_digit x"
  shows "parseInt (CHR ''-'' # ds) = Some (- int (digits_value ds))"
proof -
  have tw: "takeWhile is_digit ds = ds"
    using assms(2) by (simp add: takeWhile_eq_all_conv)
  have "\<not> is_space CHR ''-''"
    by (simp add: is_space_def)
  then show ?thesis
    using assms(1) by (simp add: parseInt_def tw)
qed

text \<open>Parsing what \<open>js_String\<close> printed gives the integer back, so keys are injective.\<close>

lemma parseInt_js_String: "parseInt (js_String n) = Some n"
proof (cases "n < 0")
  case True
  then show ?thesis
    using parseInt_minus_digits [of "digits (nat (- n))"] digits_nonempty digits_all_digit
    by (simp add: js_String_def digits_value_digits)
next
  case False
  then show ?thesis
    using parseInt_all_digits [of "digits (nat n)"] digits_nonempty digits_all_digit
    by (simp add: js_String_def digits_value_digits)
qed

lemma js_String_inject: "js_String a = js_String b \<longleftrightarrow> a = b"
  by (metis parseInt_js_String option.inject)

lemma key_index_js_String: "key_index (js_String n) = n"
  by (simp add: key_index_def parseInt_js_String)

lemma is_index_key_iff: "is_index_key k \<longleftrightarrow> (\<exists>n\<ge>0. k = js_String n)"
  by (auto simp add: is_index_key_def parseInt_js_String split: option.splits)

section \<open>Arrays and objects\<close>

lemma array_get_set_same: "0 \<le> i \<Longrightarrow> array_get (array_set xs i v) i = Some v"
  by (auto simp add: array_get_def array_set_def nth_append)

lemma array_get_set_other: "j \<noteq> i \<Longrightarrow> array_get (array_set xs i v) j = array_get xs j"
  by (auto simp add: array_get_def array_set_def nth_append nth_list_update)

lemma length_splice1:
  "0 \<le> v \<Longrightarrow> v < int (length xs) \<Longrightarrow> length (splice1 xs v) = length xs - 1"
  by (auto simp add: splice1_def)

lemma splice1_nonempty:
  "0 \<le> v \<Longrightarrow> v < int (length xs) \<Longrightarrow> 1 < length xs \<Longrightarrow> splice1 xs v \<noteq> []"
  using length_splice1 [of v xs] by auto

lemma update_values: "snd ` set (AList.update k v al) \<subseteq> insert v (snd ` set al)"
  by (induction al) auto

lemma delete_subset: "set (AList.delete k al) \<subseteq> set al"
  by (induction al) auto

lemma set_Object_entries: "set (Object_entries obj) = set obj"
  by (auto simp add: Object_entries_def)

lemma history_lookup_store: "history_lookup s key = map_of (history_store s) key"
  by (simp add: history_lookup_def history_store_def split: option.splits)

lemma history_store_update [simp]: "history_store (s\<lparr>eventHistory := Some h\<rparr>) = h"
  by (simp add: history_store_def)

lemma history_store_events [simp]: "history_store (s\<lparr>events := es\<rparr>) = history_store s"
  by (simp add: history_store_def)

lemma history_lookup_update [simp]:
  "history_lookup (s\<lparr>eventHistory := Some h\<rparr>) k = map_of h k"
  by (simp add: history_lookup_def)

lemma history_lookup_events [simp]:
  "history_lookup (s\<lparr>events := es\<rparr>) k = history_lookup s k"
  by (simp add: history_lookup_def)

section \<open>The values of the re-keyed store\<close>

lemma rekey_values: "snd ` set (rekey p kv acc) \<subseteq> insert (snd kv) (snd ` set acc)"
  using update_values [of _ "snd kv" acc]
  by (auto simp add: rekey_def split: option.splits)

lemma fold_rekey_values: "snd ` set (fold (rekey p) es acc) \<subseteq> snd ` set es \<union> snd ` set acc"
proof (induction es arbitrary: acc)
  case Nil
  then show ?case by simp
next
  case (Cons e es)
  have "snd ` set (fold (rekey p) es (rekey p e acc)) \<subseteq> snd ` set es \<union> snd ` set (rekey p e acc)"
    by (rule Cons.IH)
  also have "\<dots> \<subseteq> snd ` set es \<union> insert (snd e) (snd ` set acc)"
    using rekey_values [of p e acc] by blast
  finally show ?case by auto
qed

lemma history_store_deleteEvent_values:
  "snd ` set (history_store (deleteEvent p s)) \<subseteq> snd ` set (history_store s)"
proof -
  have "snd ` set (fold (rekey p) (Object_entries h) []) \<subseteq> snd ` set h"
    for h :: "'a event_history object"
    using fold_rekey_values [of p "Object_entries h" "[]"] by (simp add: set_Object_entries)
  moreover have "snd ` set (fold (rekey p) (Object_entries (AList.delete k h)) []) \<subseteq> snd ` set h"
    for h :: "'a event_history object" and k
    using fold_rekey_values [of p "Object_entries (AList.delete k h)" "[]"] delete_subset [of k h]
    by (auto simp add: set_Object_entries)
  ultimately show ?thesis
    by (simp add: deleteEvent_def history_store_def Let_def split: option.splits)
qed

section \<open>A history keeps at least one version\<close>

lemma all_nonempty_iff: "all_nonempty al \<longleftrightarrow> (\<forall>h \<in> snd ` set al. entries h \<noteq> [])"
  by (auto simp add: all_nonempty_def list_all_iff)

lemma all_nonempty_update:
  "all_nonempty al \<Longrightarrow> entries v \<noteq> [] \<Longrightarrow> all_nonempty (AList.update k v al)"
  unfolding all_nonempty_iff using update_values [of k v al] by blast

lemma all_nonempty_lookup: "all_nonempty al \<Longrightarrow> map_of al k = Some h \<Longrightarrow> entries h \<noteq> []"
  unfolding all_nonempty_iff by (force dest: map_of_SomeD)

lemma nonempty_initial: "nonempty_histories (initialState r)"
  by (simp add: nonempty_histories_def initialState_def history_store_def all_nonempty_def)

lemma nonempty_ensure: "nonempty_histories s \<Longrightarrow> nonempty_histories (ensureEventHistory now p s)"
  by (simp add: nonempty_histories_def ensureEventHistory_def Let_def all_nonempty_update
      seed_history_def split: option.splits)

lemma nonempty_add:
  "nonempty_histories s \<Longrightarrow> nonempty_histories (addEventHistoryVersion now0 now1 p e kind s)"
  by (simp add: nonempty_histories_def addEventHistoryVersion_def Let_def all_nonempty_update
      seed_history_def split: option.splits)

lemma nonempty_select:
  "nonempty_histories s \<Longrightarrow> nonempty_histories (selectEventHistoryVersion p v s)"
  by (auto simp add: nonempty_histories_def selectEventHistoryVersion_def Let_def
      history_lookup_store all_nonempty_update all_nonempty_lookup split: option.splits)

lemma nonempty_deleteVersion:
  "nonempty_histories s \<Longrightarrow> nonempty_histories (deleteEventHistoryVersion p v s)"
  by (auto simp add: nonempty_histories_def deleteEventHistoryVersion_def Let_def
      history_lookup_store all_nonempty_update splice1_nonempty split: option.splits)

lemma nonempty_deleteEvent: "nonempty_histories s \<Longrightarrow> nonempty_histories (deleteEvent p s)"
  unfolding nonempty_histories_def all_nonempty_iff
  using history_store_deleteEvent_values [of p s] by blast

lemma nonempty_pagination:
  "nonempty_histories s \<Longrightarrow>
   nonempty_histories (setHistoryPagination i pg sz s) \<and> nonempty_histories (clearHistoryPagination s)"
  by (simp add: nonempty_histories_def setHistoryPagination_def clearHistoryPagination_def
      history_store_def)

lemma deleteVersion_sole:
  "history_at s p = Some h \<Longrightarrow> length (entries h) = 1 \<Longrightarrow> deleteEventHistoryVersion p v s = s"
  by (simp add: deleteEventHistoryVersion_def history_at_def Let_def)

text \<open>
  Claim C4. Every history of the store has at least one version, and each operation keeps
  it so: when no history of the store is empty before \<open>ensureHistory\<close>, \<open>addVersion\<close>,
  \<open>selectVersion\<close>, \<open>deleteVersion\<close>, \<open>deleteEvent\<close> or a change of the pagination
  state, none is empty after it. In particular \<open>deleteVersion\<close> on a position whose
  history has exactly one entry returns the state as it was: entries, current index and
  event log are unchanged. (The store of the initial state is empty, \<open>nonempty_initial\<close>.)
\<close>

theorem histories_keep_a_version:
  assumes "nonempty_histories s"
  shows "nonempty_histories (ensureEventHistory now p s) \<and>
         nonempty_histories (addEventHistoryVersion now0 now1 p e kind s) \<and>
         nonempty_histories (selectEventHistoryVersion p v s) \<and>
         nonempty_histories (deleteEventHistoryVersion p v s) \<and>
         nonempty_histories (deleteEvent p s) \<and>
         nonempty_histories (setHistoryPagination p pg sz s) \<and>
         nonempty_histories (clearHistoryPagination s) \<and>
         (\<forall>k h. history_lookup s k = Some h \<longrightarrow> 1 \<le> length (entries h)) \<and>
         (\<forall>h. history_at s p = Some h \<and> length (entries h) = 1 \<longrightarrow>
              deleteEventHistoryVersion p v s = s)"
proof -
  have "1 \<le> length (entries h)" if "history_lookup s k = Some h" for k h
  proof -
    have "entries h \<noteq> []"
      using assms that all_nonempty_lookup [of "history_store s" k h]
      by (simp add: nonempty_histories_def history_lookup_store)
    then show ?thesis
      by (cases "entries h") simp_all
  qed
  then have look: "\<forall>k h. history_lookup s k = Some h \<longrightarrow> 1 \<le> length (entries h)"
    by blast
  have sole: "\<forall>h. history_at s p = Some h \<and> length (entries h) = 1 \<longrightarrow>
      deleteEventHistoryVersion p v s = s"
    using deleteVersion_sole by blast
  show ?thesis
    using nonempty_ensure [OF assms] nonempty_add [OF assms] nonempty_select [OF assms]
      nonempty_deleteVersion [OF assms] nonempty_deleteEvent [OF assms]
      nonempty_pagination [OF assms] look sole
    by (intro conjI) simp_all
qed

theorem histories_keep_a_version_witness:
  "nonempty_histories sole_state \<and>
   history_at sole_state 0 = Some \<lparr>entries = [version 0], currentVersionIndex = 0\<rparr> \<and>
   deleteEventHistoryVersion 0 0 sole_state = sole_state \<and>
   nonempty_histories (deleteEventHistoryVersion 0 0 sole_state) \<and>
   nonempty_histories (deleteEvent 0 sole_state)"
proof -
  have h: "nonempty_histories sole_state"
    by code_simp
  have at: "history_at sole_state 0 = Some \<lparr>entries = [version 0], currentVersionIndex = 0\<rparr>"
    by code_simp
  have len: "length (entries \<lparr>entries = [version 0], currentVersionIndex = 0\<rparr>) = 1"
    by simp
  note c = histories_keep_a_version [OF h, where p = 0 and v = 0]
  from c at len have noop: "deleteEventHistoryVersion 0 0 sole_state = sole_state"
    by simp
  from c have "nonempty_histories (deleteEventHistoryVersion 0 0 sole_state)"
    and "nonempty_histories (deleteEvent 0 sole_state)"
    by simp_all
  with h at noop show ?thesis
    by (intro conjI)
qed

section \<open>Deleting a version\<close>

text \<open>
  Claim C3. Let the history \<open>h\<close> of a position \<open>p\<close> have more than one entry and let
  \<open>v\<close> be an index of \<open>h\<close>. Then \<open>deleteVersion p v\<close> leaves at \<open>p\<close> a history whose
  entries are those of \<open>h\<close> without the entry at \<open>v\<close>, and
  \<^item> if \<open>v\<close> was the current index, the current index becomes \<open>max 0 (v - 1)\<close> and the
    event log holds at \<open>p\<close> the event of the new current version;
  \<^item> if \<open>v\<close> was below the current index, the current index goes down by one and the
    event log is the one before the call;
  \<^item> if \<open>v\<close> was above the current index, the current index (and the event log) is
    unchanged.
\<close>

theorem deleteVersion_pointer_rules:
  assumes "history_at s p = Some h"
    and "1 < length (entries h)"
    and "0 \<le> v" and "v < int (length (entries h))"
    and "0 \<le> p"
  shows "\<exists>h'. history_at (deleteEventHistoryVersion p v s) p = Some h' \<and>
           entries h' = take (nat v) (entries h) @ drop (nat v + 1) (entries h) \<and>
           (v = currentVersionIndex h \<longrightarrow>
              currentVersionIndex h' = max 0 (v - 1) \<and>
              array_get (events (deleteEventHistoryVersion p v s)) p
                = Some (event (entries h' ! nat (currentVersionIndex h')))) \<and>
           (v < currentVersionIndex h \<longrightarrow>
              currentVersionIndex h' = currentVersionIndex h - 1 \<and>
              events (deleteEventHistoryVersion p v s) = events s) \<and>
           (currentVersionIndex h < v \<longrightarrow>
              currentVersionIndex h' = currentVersionIndex h \<and>
              events (deleteEventHistoryVersion p v s) = events s)"
  using assms
  by (auto simp add: deleteEventHistoryVersion_def history_at_def Let_def splice1_def
      history_lookup_def update_conv' array_get_set_same)

theorem deleteVersion_pointer_rules_witness:
  "history_at example_state 1 = Some three_versions \<and>
   1 < length (entries three_versions) \<and>
   (0::int) \<le> 2 \<and> 2 < int (length (entries three_versions)) \<and> (0::int) \<le> 1 \<and>
   (\<exists>h'. history_at (deleteEventHistoryVersion 1 2 example_state) 1 = Some h' \<and>
           entries h' = take (nat 2) (entries three_versions) @ drop (nat 2 + 1) (entries three_versions) \<and>
           (2 = currentVersionIndex three_versions \<longrightarrow>
              currentVersionIndex h' = max 0 (2 - 1) \<and>
              array_get (events (deleteEventHistoryVersion 1 2 example_state)) 1
                = Some (event (entries h' ! nat (currentVersionIndex h')))) \<and>
           (2 < currentVersionIndex three_versions \<longrightarrow>
              currentVersionIndex h' = currentVersionIndex three_versions - 1 \<and>
              events (deleteEventHistoryVersion 1 2 example_state) = events example_state) \<and>
           (currentVersionIndex three_versions < 2 \<longrightarrow>
              currentVersionIndex h' = currentVersionIndex three_versions \<and>
              events (deleteEventHistoryVersion 1 2 example_state) = events example_state))"
proof -
  have h1: "history_at example_state 1 = Some three_versions"
    by code_simp
  have h2: "1 < length (entries three_versions)"
    by code_simp
  have h3: "(0::int) \<le> 2" and h5: "(0::int) \<le> 1"
    by simp_all
  have h4: "2 < int (length (entries three_versions))"
    by code_simp
  note c = deleteVersion_pointer_rules [OF h1 h2 h3 h4 h5]
  from h1 h2 h3 h4 h5 c show ?thesis
    by (intro conjI)
qed

text \<open>The three cases of the rule on the history of three versions whose last is current.\<close>

lemma deleteVersion_examples:
  "history_at (deleteEventHistoryVersion 1 1 example_state) 1
     = Some \<lparr>entries = [version 0, version 2], currentVersionIndex = 1\<rparr>"
  "events (deleteEventHistoryVersion 1 1 example_state) = events example_state"
  "history_at (deleteEventHistoryVersion 1 2 example_state) 1
     = Some \<lparr>entries = [version 0, version 1], currentVersionIndex = 1\<rparr>"
  "array_get (events (deleteEventHistoryVersion 1 2 example_state)) 1 = Some (Event narration 1)"
  "history_at (deleteEventHistoryVersion 1 0 example_state) 1
     = Some \<lparr>entries = [version 1, version 2], currentVersionIndex = 1\<rparr>"
  "history_at (deleteEventHistoryVersion 1 1 (selectEventHistoryVersion 1 0 example_state)) 1
     = Some \<lparr>entries = [version 0, version 2], currentVersionIndex = 0\<rparr>"
  by code_simp+

section \<open>Creating a history\<close>

text \<open>
  Claim C7. \<open>ensureHistory\<close> is idempotent: a second call, whatever the clock, returns
  the state of the first. Where the position holds an event and has no history, the call
  creates the history of one entry made of that event, stamped with the clock, of kind
  \<open>edit\<close> for an action and \<open>regenerate\<close> otherwise, with current index 0; and the
  history after two calls in a row is that same one-entry history. In every case the
  histories under the other keys, the event log, the pagination state and the rest of the
  state are the ones before the call.
\<close>

theorem ensureHistory_idempotent:
  "ensureEventHistory now' p (ensureEventHistory now p s) = ensureEventHistory now p s \<and>
   (0 \<le> p \<and> array_get (events s) p = Some ev \<and> history_at s p = None \<longrightarrow>
      history_at (ensureEventHistory now p s) p
        = Some \<lparr>entries = [\<lparr>event = ev, timestamp = now,
                             type = (if event_type ev = action then edit else regenerate)\<rparr>],
                currentVersionIndex = 0\<rparr> \<and>
      history_at (ensureEventHistory now' p (ensureEventHistory now p s)) p
        = history_at (ensureEventHistory now p s) p) \<and>
   (\<forall>k. k \<noteq> js_String p \<longrightarrow>
      history_lookup (ensureEventHistory now p s) k = history_lookup s k) \<and>
   events (ensureEventHistory now p s) = events s \<and>
   historyPagination (ensureEventHistory now p s) = historyPagination s \<and>
   rest (ensureEventHistory now p s) = rest s"
proof -
  have idem: "ensureEventHistory now' p (ensureEventHistory now p s) = ensureEventHistory now p s"
    by (simp add: ensureEventHistory_def Let_def update_conv' split: option.splits)
  have create: "history_at (ensureEventHistory now p s) p = Some (seed_history ev now)"
    if "0 \<le> p" "array_get (events s) p = Some ev" "history_at s p = None"
    using that
    by (simp add: ensureEventHistory_def Let_def history_at_def history_lookup_store update_conv')
  have other: "history_lookup (ensureEventHistory now p s) k = history_lookup s k"
    if "k \<noteq> js_String p" for k
    using that
    by (simp add: ensureEventHistory_def Let_def history_lookup_store update_conv'
        split: option.splits)
  have frame: "events (ensureEventHistory now p s) = events s \<and>
      historyPagination (ensureEventHistory now p s) = historyPagination s \<and>
      rest (ensureEventHistory now p s) = rest s"
    by (simp add: ensureEventHistory_def Let_def split: option.splits)
  show ?thesis
    using idem create other frame by (simp add: seed_history_def)
qed

theorem ensureHistory_idempotent_witness:
  "(0::int) \<le> 0 \<and> array_get (events example_state) 0 = Some (Event action 7) \<and>
   history_at example_state 0 = None \<and>
   history_at (ensureEventHistory 5 0 example_state) 0
     = Some \<lparr>entries = [\<lparr>event = Event action 7, timestamp = 5, type = edit\<rparr>],
             currentVersionIndex = 0\<rparr> \<and>
   history_at (ensureEventHistory 9 0 (ensureEventHistory 5 0 example_state)) 0
     = Some \<lparr>entries = [\<lparr>event = Event action 7, timestamp = 5, type = edit\<rparr>],
             currentVersionIndex = 0\<rparr> \<and>
   events (ensureEventHistory 5 0 example_state) = events example_state"
proof -
  have a: "array_get (events example_state) 0 = Some (Event action (7::nat))"
    by code_simp
  have b: "history_at example_state 0 = None"
    by code_simp
  note c = ensureHistory_idempotent
    [where s = example_state and p = 0 and now = 5 and now' = 9 and ev = "Event action 7"]
  from c a b have
    "history_at (ensureEventHistory 5 0 example_state) 0
       = Some \<lparr>entries = [\<lparr>event = Event action 7, timestamp = 5, type = edit\<rparr>],
               currentVersionIndex = 0\<rparr>"
    "history_at (ensureEventHistory 9 0 (ensureEventHistory 5 0 example_state)) 0
       = Some \<lparr>entries = [\<lparr>event = Event action 7, timestamp = 5, type = edit\<rparr>],
               currentVersionIndex = 0\<rparr>"
    "events (ensureEventHistory 5 0 example_state) = events example_state"
    by simp_all
  with a b show ?thesis
    by simp
qed

section \<open>Adding and selecting versions\<close>

text \<open>
  The scenario of an edit followed by the deletion of the event: the edit leaves a history
  of two entries under the key of 0, the second current, and the new action in the log;
  the deletion leaves an empty log and a store without that key.
\<close>

lemma edit_then_delete_scenario:
  "history_at (addEventHistoryVersion 1 2 0 (Event action ''go east'') edit scenario_state) 0
     = Some \<lparr>entries = [\<lparr>event = Event action ''go north'', timestamp = 1, type = edit\<rparr>,
                        \<lparr>event = Event action ''go east'', timestamp = 2, type = edit\<rparr>],
             currentVersionIndex = 1\<rparr>"
  "events (addEventHistoryVersion 1 2 0 (Event action ''go east'') edit scenario_state)
     = [Some (Event action ''go east'')]"
  "events (deleteEvent 0 (addEventHistoryVersion 1 2 0 (Event action ''go east'') edit scenario_state))
     = []"
  "eventHistory (deleteEvent 0 (addEventHistoryVersion 1 2 0 (Event action ''go east'') edit scenario_state))
     = Some []"
  by code_simp+

text \<open>
  Claim C10. For a position \<open>p\<close> that is not negative, with no history and no event in
  the log (so also for every \<open>p\<close> at or past the end of the log), \<open>addVersion\<close> changes
  nothing: the store has the entries it had, every lookup answers as before and the event
  log, the pagination state and the rest of the state are unchanged.
\<close>

theorem addVersion_without_event:
  assumes "0 \<le> p" and "history_at s p = None" and "array_get (events s) p = None"
  shows "events (addEventHistoryVersion now0 now1 p e kind s) = events s \<and>
         history_store (addEventHistoryVersion now0 now1 p e kind s) = history_store s \<and>
         (\<forall>k. history_lookup (addEventHistoryVersion now0 now1 p e kind s) k = history_lookup s k) \<and>
         historyPagination (addEventHistoryVersion now0 now1 p e kind s) = historyPagination s \<and>
         rest (addEventHistoryVersion now0 now1 p e kind s) = rest s"
  using assms
  by (simp add: addEventHistoryVersion_def Let_def history_at_def history_lookup_store)

theorem addVersion_without_event_witness:
  "(0::int) \<le> 5 \<and> history_at example_state 5 = None \<and>
   array_get (events example_state) 5 = None \<and>
   int (length (events example_state)) \<le> 5 \<and>
   events (addEventHistoryVersion 1 2 5 (Event action 8) edit example_state) = events example_state \<and>
   history_store (addEventHistoryVersion 1 2 5 (Event action 8) edit example_state)
     = history_store example_state"
proof -
  have a: "(0::int) \<le> 5"
    by simp
  have b: "history_at example_state 5 = None"
    by code_simp
  have c: "array_get (events example_state) 5 = None"
    by code_simp
  have d: "int (length (events example_state)) \<le> 5"
    by code_simp
  note r = addVersion_without_event
    [OF a b c, where ?now0.0 = 1 and ?now1.0 = 2 and e = "Event action 8" and kind = edit]
  from r have
    "events (addEventHistoryVersion 1 2 5 (Event action 8) edit example_state) = events example_state"
    "history_store (addEventHistoryVersion 1 2 5 (Event action 8) edit example_state)
       = history_store example_state"
    by simp_all
  with a b c d show ?thesis
    by (intro conjI)
qed

section \<open>Well-formed stores and the re-keying loop\<close>


lemma is_index_key_js_String: "is_index_key (js_String n) \<longleftrightarrow> 0 \<le> n"
  by (simp add: is_index_key_def parseInt_js_String)

lemma index_keyed_iff:
  "index_keyed obj \<longleftrightarrow> distinct (map fst obj) \<and> (\<forall>k \<in> fst ` set obj. \<exists>n\<ge>0. k = js_String n)"
  by (auto simp add: index_keyed_def list_all_iff is_index_key_iff)

lemma index_keyed_Nil: "index_keyed []"
  by (simp add: index_keyed_def)

lemma index_keyed_update:
  "index_keyed al \<Longrightarrow> 0 \<le> n \<Longrightarrow> index_keyed (AList.update (js_String n) v al)"
  unfolding index_keyed_iff by (auto simp add: distinct_update dom_update)

lemma index_keyed_update_present:
  "index_keyed al \<Longrightarrow> map_of al k = Some h \<Longrightarrow> index_keyed (AList.update k v al)"
  unfolding index_keyed_iff
  by (auto simp add: distinct_update dom_update dest!: map_of_SomeD) force

lemma index_keyed_delete: "index_keyed al \<Longrightarrow> index_keyed (AList.delete k al)"
  unfolding index_keyed_iff using delete_subset [of k al]
  by (auto simp add: distinct_delete)

lemma mset_Object_entries: "mset (Object_entries obj) = mset obj"
  by (simp add: Object_entries_def)

lemma index_keyed_Object_entries: "index_keyed obj \<Longrightarrow> index_keyed (Object_entries obj)"
proof -
  have "mset (map fst (Object_entries obj)) = mset (map fst obj)"
    by (simp add: mset_Object_entries)
  then have "distinct (map fst (Object_entries obj)) \<longleftrightarrow> distinct (map fst obj)"
    by (rule mset_eq_imp_distinct_iff)
  then show "index_keyed obj \<Longrightarrow> index_keyed (Object_entries obj)"
    by (simp add: index_keyed_iff set_Object_entries)
qed

lemma map_of_Object_entries:
  "distinct (map fst obj) \<Longrightarrow> map_of (Object_entries obj) = map_of obj"
proof -
  assume d: "distinct (map fst obj)"
  have "mset (map fst (Object_entries obj)) = mset (map fst obj)"
    by (simp add: mset_Object_entries)
  then have "distinct (map fst (Object_entries obj))"
    using d mset_eq_imp_distinct_iff by blast
  then show ?thesis
    using d by (intro map_of_inject_set [THEN iffD2]) (simp_all add: set_Object_entries)
qed


lemma rekey_js_String:
  "rekey p (js_String n, h) acc =
     (if p < n then AList.update (js_String (n - 1)) h acc
      else if n < p then AList.update (js_String n) h acc else acc)"
  by (simp add: rekey_def parseInt_js_String)

lemma fold_rekey_lookup_src:
  assumes "index_keyed es" and "src = (if j < p then j else j + 1)"
  shows "map_of (fold (rekey p) es acc) (js_String j) =
           (case map_of es (js_String src) of
              Some h \<Rightarrow> Some h
            | None \<Rightarrow> map_of acc (js_String j))"
  using assms(1)
proof (induction es arbitrary: acc)
  case Nil
  then show ?case by simp
next
  case (Cons e es)
  obtain n h where e: "e = (js_String n, h)" and n: "0 \<le> n"
    using Cons.prems by (cases e) (auto simp add: index_keyed_iff)
  have es: "index_keyed es" and fresh: "map_of es (js_String n) = None"
    using Cons.prems e by (auto simp add: index_keyed_iff map_of_eq_None_iff)
  have IH: "map_of (fold (rekey p) (e # es) acc) (js_String j) =
      (case map_of es (js_String src) of
         Some h \<Rightarrow> Some h
       | None \<Rightarrow> map_of (rekey p e acc) (js_String j))"
    using Cons.IH [OF es, of "rekey p e acc"] by simp
  show ?case
  proof (cases "src = n")
    case True
    then have "map_of (rekey p e acc) (js_String j) = Some h"
      unfolding e using assms(2)
      by (auto simp add: rekey_js_String update_conv' split: if_splits)
    moreover have "map_of (e # es) (js_String src) = Some h"
      using True by (simp add: e)
    moreover have "map_of es (js_String src) = None"
      using True fresh by simp
    ultimately show ?thesis
      unfolding IH by simp
  next
    case False
    then have "map_of (rekey p e acc) (js_String j) = map_of acc (js_String j)"
      unfolding e using assms(2)
      by (auto simp add: rekey_js_String update_conv' js_String_inject split: if_splits)
    moreover have "map_of (e # es) (js_String src) = map_of es (js_String src)"
      using False by (simp add: e js_String_inject)
    ultimately show ?thesis
      unfolding IH by (simp split: option.splits)
  qed
qed

lemma fold_rekey_lookup:
  assumes "index_keyed es"
  shows "map_of (fold (rekey p) es acc) (js_String j) =
           (case map_of es (js_String (if j < p then j else j + 1)) of
              Some h \<Rightarrow> Some h
            | None \<Rightarrow> map_of acc (js_String j))"
  using fold_rekey_lookup_src [OF assms refl] .

lemma index_keyed_rekey:
  "index_keyed acc \<Longrightarrow> 0 \<le> p \<Longrightarrow> is_index_key (fst kv) \<Longrightarrow> index_keyed (rekey p kv acc)"
  by (cases kv) (auto simp add: is_index_key_iff rekey_js_String index_keyed_update)

lemma index_keyed_fold_rekey:
  "index_keyed acc \<Longrightarrow> 0 \<le> p \<Longrightarrow> \<forall>kv \<in> set es. is_index_key (fst kv) \<Longrightarrow>
   index_keyed (fold (rekey p) es acc)"
  by (induction es arbitrary: acc) (simp_all add: index_keyed_rekey)

lemma history_at_store: "history_at s p = map_of (history_store s) (js_String p)"
  by (simp add: history_at_def history_lookup_store)

lemma map_of_index_keyed_delete:
  "map_of (AList.delete (js_String p) al) (js_String j)
     = (if j = p then None else map_of al (js_String j))"
  by (simp add: delete_conv' js_String_inject)

lemma history_store_deleteEvent:
  assumes "0 \<le> p"
  shows "history_store (deleteEvent p s)
           = (case eventHistory s of
                None \<Rightarrow> []
              | Some h \<Rightarrow> fold (rekey p) (Object_entries (AList.delete (js_String p) h)) [])"
proof -
  have "AList.delete k h = h" if "map_of h k = None" for k and h :: "'a event_history object"
    using that by (simp add: map_of_eq_None_iff)
  then show ?thesis
    using assms by (simp add: deleteEvent_def Let_def history_store_def split: option.splits)
qed

lemma wf_store_deleteEvent:
  assumes "wf_store s"
  shows "wf_store (deleteEvent p s)"
proof (cases "0 \<le> p")
  case False
  with assms show ?thesis by (simp add: deleteEvent_def)
next
  case True
  have "index_keyed (fold (rekey p) (Object_entries (AList.delete (js_String p) h)) [])"
    if "index_keyed h" for h :: "'a event_history object"
  proof -
    have "index_keyed (Object_entries (AList.delete (js_String p) h))"
      using that by (simp add: index_keyed_delete index_keyed_Object_entries)
    then have "\<forall>kv \<in> set (Object_entries (AList.delete (js_String p) h)). is_index_key (fst kv)"
      by (simp add: index_keyed_def list_all_iff)
    then show ?thesis
      using True index_keyed_fold_rekey [OF index_keyed_Nil] by blast
  qed
  then show ?thesis
    using assms True
    by (simp add: wf_store_def history_store_deleteEvent)
       (simp add: history_store_def index_keyed_Nil split: option.splits)
qed

lemma history_at_deleteEvent:
  assumes "0 \<le> p" and "wf_store s"
  shows "history_at (deleteEvent p s) j = (if j < p then history_at s j else history_at s (j + 1))"
proof (cases "eventHistory s")
  case None
  with assms show ?thesis
    by (simp add: history_at_store history_store_deleteEvent) (simp add: history_store_def)
next
  case (Some h)
  then have h: "index_keyed h" and hs: "history_store s = h"
    using assms(2) by (simp_all add: wf_store_def history_store_def)
  have "index_keyed (Object_entries (AList.delete (js_String p) h))"
    using h by (simp add: index_keyed_delete index_keyed_Object_entries)
  moreover have "map_of (Object_entries (AList.delete (js_String p) h)) = map_of (AList.delete (js_String p) h)"
    using h by (intro map_of_Object_entries) (simp add: index_keyed_def distinct_delete)
  ultimately show ?thesis
    using assms(1) Some
    by (simp add: history_at_store history_store_deleteEvent hs fold_rekey_lookup
        map_of_index_keyed_delete split: option.splits)
qed

section \<open>Deleting an event\<close>

lemma events_deleteEvent: "0 \<le> p \<Longrightarrow> events (deleteEvent p s) = splice1 (events s) p"
  by (simp add: deleteEvent_def Let_def split: option.splits)

lemma frame_deleteEvent:
  "historyPagination (deleteEvent p s) = historyPagination s \<and> rest (deleteEvent p s) = rest s"
  by (simp add: deleteEvent_def Let_def split: option.splits)

lemma array_get_splice1:
  assumes "0 \<le> p"
  shows "array_get (splice1 xs p) j = (if j < p then array_get xs j else array_get xs (j + 1))"
proof (cases "0 \<le> j")
  case False
  with assms show ?thesis by (simp add: array_get_def)
next
  case True
  show ?thesis
  proof (cases "j < p")
    case True
    with \<open>0 \<le> j\<close> assms show ?thesis
      by (auto simp add: array_get_def splice1_def nth_append)
  next
    case False
    with \<open>0 \<le> j\<close> assms have "nat j - nat p + Suc (nat p) = nat (j + 1)"
      by linarith
    with False \<open>0 \<le> j\<close> assms show ?thesis
      by (auto simp add: array_get_def splice1_def nth_append min_def)
  qed
qed

lemma splice1_past_end: "int (length xs) \<le> p \<Longrightarrow> splice1 xs p = xs"
  by (simp add: splice1_def)

lemma positions_deleteEvent:
  assumes "0 \<le> p" and "wf_store s"
  shows "{j. history_at (deleteEvent p s) j \<noteq> None}
           = (\<lambda>k. if k < p then k else k - 1) ` ({k. history_at s k \<noteq> None} - {p})"
proof (intro set_eqI iffI)
  fix j
  assume "j \<in> {j. history_at (deleteEvent p s) j \<noteq> None}"
  then have j: "(if j < p then history_at s j else history_at s (j + 1)) \<noteq> None"
    by (simp add: history_at_deleteEvent [OF assms])
  let ?k = "if j < p then j else j + 1"
  have "?k \<in> {k. history_at s k \<noteq> None} - {p}" and "j = (if ?k < p then ?k else ?k - 1)"
    using j by (auto split: if_splits)
  then show "j \<in> (\<lambda>k. if k < p then k else k - 1) ` ({k. history_at s k \<noteq> None} - {p})"
    by (rule_tac x = ?k in image_eqI)
next
  fix j
  assume "j \<in> (\<lambda>k. if k < p then k else k - 1) ` ({k. history_at s k \<noteq> None} - {p})"
  then obtain k where "k \<in> {k. history_at s k \<noteq> None} - {p}"
    and "j = (if k < p then k else k - 1)"
    by blast
  then show "j \<in> {j. history_at (deleteEvent p s) j \<noteq> None}"
    by (auto simp add: history_at_deleteEvent [OF assms] split: if_splits)
qed

text \<open>
  Claim C2. On a well-formed store and for a position \<open>p\<close> that is not negative,
  \<open>deleteEvent p\<close> splices the event at \<open>p\<close> out of the log: the events before \<open>p\<close>
  stay, every later event moves down by one, and the log is shorter by exactly one when
  \<open>p\<close> was a position of the log. The history of every position \<open>k < p\<close> is unchanged,
  the history of every position \<open>k > p\<close> is found at \<open>k - 1\<close>, the store stays well
  formed, and the positions with a history are the old ones without \<open>p\<close>, those above
  \<open>p\<close> moved down by one: the history that was at \<open>p\<close> is under no key. From
  histories at 1, 2 and 4, \<open>deleteEvent 2\<close> leaves histories at exactly 1 and 3.
\<close>

theorem deleteEvent_shifts_and_rekeys:
  assumes "0 \<le> p" and "wf_store s"
  shows "events (deleteEvent p s) = take (nat p) (events s) @ drop (nat p + 1) (events s) \<and>
         (\<forall>j. array_get (events (deleteEvent p s)) j
                = (if j < p then array_get (events s) j else array_get (events s) (j + 1))) \<and>
         (p < int (length (events s)) \<longrightarrow>
            length (events (deleteEvent p s)) = length (events s) - 1) \<and>
         (\<forall>k. k < p \<longrightarrow> history_at (deleteEvent p s) k = history_at s k) \<and>
         (\<forall>k. p < k \<longrightarrow> history_at (deleteEvent p s) (k - 1) = history_at s k) \<and>
         wf_store (deleteEvent p s) \<and>
         {j. history_at (deleteEvent p s) j \<noteq> None}
           = (\<lambda>k. if k < p then k else k - 1) ` ({k. history_at s k \<noteq> None} - {p}) \<and>
         ({k. history_at s k \<noteq> None} = {1, 2, 4} \<and> p = 2 \<longrightarrow>
            {j. history_at (deleteEvent p s) j \<noteq> None} = {1, 3})"
proof -
  have ev: "events (deleteEvent p s) = take (nat p) (events s) @ drop (nat p + 1) (events s)"
    using assms(1) by (simp add: events_deleteEvent splice1_def)
  have get: "\<forall>j. array_get (events (deleteEvent p s)) j
      = (if j < p then array_get (events s) j else array_get (events s) (j + 1))"
    using assms(1) by (simp add: events_deleteEvent array_get_splice1)
  have len: "p < int (length (events s)) \<longrightarrow>
      length (events (deleteEvent p s)) = length (events s) - 1"
    using assms(1) by (simp add: events_deleteEvent length_splice1)
  have below: "\<forall>k. k < p \<longrightarrow> history_at (deleteEvent p s) k = history_at s k"
    by (simp add: history_at_deleteEvent [OF assms])
  have above: "\<forall>k. p < k \<longrightarrow> history_at (deleteEvent p s) (k - 1) = history_at s k"
    by (simp add: history_at_deleteEvent [OF assms])
  have wf: "wf_store (deleteEvent p s)"
    using assms(2) by (rule wf_store_deleteEvent)
  note pos = positions_deleteEvent [OF assms]
  have ex: "{k. history_at s k \<noteq> None} = {1, 2, 4} \<and> p = 2 \<longrightarrow>
      {j. history_at (deleteEvent p s) j \<noteq> None} = {1, 3}"
    unfolding pos by auto
  from ev get len below above wf pos ex show ?thesis
    by (intro conjI)
qed


lemma rekey_state_positions: "{k. history_at rekey_state k \<noteq> None} = {1, 2, 4}"
proof -
  have keys: "js_String 1 = ''1''" "js_String 2 = ''2''" "js_String 4 = ''4''"
    by code_simp+
  have "history_at rekey_state k \<noteq> None \<longleftrightarrow> k \<in> {1, 2, 4}" for k
    unfolding history_at_def history_lookup_def rekey_state_def keys [symmetric]
    by (simp add: js_String_inject)
  then show ?thesis
    by blast
qed

theorem deleteEvent_shifts_and_rekeys_witness:
  "(0::int) \<le> 2 \<and> wf_store rekey_state \<and>
   {k. history_at rekey_state k \<noteq> None} = {1, 2, 4} \<and>
   {j. history_at (deleteEvent 2 rekey_state) j \<noteq> None} = {1, 3} \<and>
   history_at (deleteEvent 2 rekey_state) 3 = history_at rekey_state 4 \<and>
   history_at (deleteEvent 2 rekey_state) 1 = history_at rekey_state 1 \<and>
   length (events (deleteEvent 2 rekey_state)) = length (events rekey_state) - 1 \<and>
   map fst (history_store (deleteEvent 2 rekey_state)) = [''1'', ''3''] \<and>
   events (deleteEvent 2 rekey_state) = map (\<lambda>n. Some (Event narration n)) [0, 1, 3, 4]"
proof -
  have a: "(0::int) \<le> 2"
    by simp
  have b: "wf_store rekey_state"
    by code_simp
  have len: "2 < int (length (events rekey_state))"
    by code_simp
  note c = deleteEvent_shifts_and_rekeys [OF a b]
  from c rekey_state_positions
  have 1: "{j. history_at (deleteEvent 2 rekey_state) j \<noteq> None} = {1, 3}"
    by blast
  from c have above: "\<forall>k. 2 < k \<longrightarrow>
      history_at (deleteEvent 2 rekey_state) (k - 1) = history_at rekey_state k"
    and below: "\<forall>k. k < 2 \<longrightarrow> history_at (deleteEvent 2 rekey_state) k = history_at rekey_state k"
    by blast+
  from above [rule_format, of 4]
  have 2: "history_at (deleteEvent 2 rekey_state) 3 = history_at rekey_state 4"
    by simp
  from below [rule_format, of 1]
  have 3: "history_at (deleteEvent 2 rekey_state) 1 = history_at rekey_state 1"
    by simp
  from c len have 4: "length (events (deleteEvent 2 rekey_state)) = length (events rekey_state) - 1"
    by blast
  have 5: "map fst (history_store (deleteEvent 2 rekey_state)) = [''1'', ''3'']"
    by code_simp
  have 6: "events (deleteEvent 2 rekey_state) = map (\<lambda>n. Some (Event narration n)) [0, 1, 3, 4]"
    by code_simp
  from a b rekey_state_positions 1 2 3 4 5 6 show ?thesis
    by simp
qed

section \<open>The log mirrors the current version\<close>

lemma history_inv_iff: "history_inv s \<longleftrightarrow> wf_store s \<and> (\<forall>q. mirrors_log s q)"
proof (cases "wf_store s")
  case False
  then show ?thesis by (simp add: history_inv_def)
next
  case True
  then have keyed: "index_keyed (history_store s)"
    by (simp add: wf_store_def)
  have "list_all (entry_consistent (events s)) (history_store s) \<longleftrightarrow> (\<forall>q. mirrors_log s q)"
  proof
    assume all: "list_all (entry_consistent (events s)) (history_store s)"
    show "\<forall>q. mirrors_log s q"
    proof
      fix q
      show "mirrors_log s q"
      proof (cases "history_at s q")
        case None
        then show ?thesis by (simp add: mirrors_log_def)
      next
        case (Some h)
        then have "(js_String q, h) \<in> set (history_store s)"
          by (simp add: history_at_store map_of_SomeD)
        with all have "entry_consistent (events s) (js_String q, h)"
          by (simp add: list_all_iff)
        with Some show ?thesis
          by (simp add: mirrors_log_def entry_consistent_def key_index_js_String)
      qed
    qed
  next
    assume all: "\<forall>q. mirrors_log s q"
    have "entry_consistent (events s) kh" if mem: "kh \<in> set (history_store s)" for kh
    proof -
      obtain k h where kh: "kh = (k, h)"
        by (cases kh)
      obtain n where k: "k = js_String n"
        using keyed mem kh by (force simp add: index_keyed_iff)
      have "map_of (history_store s) k = Some h"
        using keyed mem kh by (simp add: index_keyed_def)
      then have "history_at s n = Some h"
        by (simp add: history_at_store k)
      with all [rule_format, of n] show ?thesis
        by (simp add: mirrors_log_def entry_consistent_def kh k key_index_js_String)
    qed
    then show "list_all (entry_consistent (events s)) (history_store s)"
      by (simp add: list_all_iff)
  qed
  with True show ?thesis
    by (simp add: history_inv_def)
qed

lemma wf_store_ensure: "wf_store s \<Longrightarrow> wf_store (ensureEventHistory now p s)"
  by (simp add: wf_store_def ensureEventHistory_def Let_def index_keyed_update split: option.splits)

lemma wf_store_add: "wf_store s \<Longrightarrow> wf_store (addEventHistoryVersion now0 now1 p e kind s)"
  by (simp add: wf_store_def addEventHistoryVersion_def Let_def index_keyed_update
      split: option.splits)

lemma wf_store_select: "wf_store s \<Longrightarrow> wf_store (selectEventHistoryVersion p v s)"
  by (auto simp add: wf_store_def selectEventHistoryVersion_def Let_def history_lookup_store
      index_keyed_update_present split: option.splits)

lemma wf_store_deleteVersion: "wf_store s \<Longrightarrow> wf_store (deleteEventHistoryVersion p v s)"
  by (auto simp add: wf_store_def deleteEventHistoryVersion_def Let_def history_lookup_store
      index_keyed_update_present split: option.splits)

lemma mirrors_ensure:
  "mirrors_log s q \<Longrightarrow> mirrors_log (ensureEventHistory now p s) q"
  by (auto simp add: mirrors_log_def ensureEventHistory_def Let_def history_at_store update_conv'
      js_String_inject seed_history_def split: option.splits)

lemma mirrors_add:
  "mirrors_log s q \<Longrightarrow> mirrors_log (addEventHistoryVersion now0 now1 p e kind s) q"
  by (auto simp add: mirrors_log_def addEventHistoryVersion_def Let_def history_at_store
      update_conv' js_String_inject seed_history_def array_get_set_same array_get_set_other
      split: option.splits)

lemma array_get_SomeD: "array_get xs i = Some x \<Longrightarrow> 0 \<le> i \<and> i < int (length xs)"
  by (simp add: array_get_def split: if_splits)

lemma mirrors_select:
  "mirrors_log s q \<Longrightarrow> mirrors_log (selectEventHistoryVersion p v s) q"
  by (auto simp add: mirrors_log_def selectEventHistoryVersion_def Let_def history_at_store
      history_lookup_store update_conv' js_String_inject array_get_set_same array_get_set_other
      dest: array_get_SomeD split: option.splits)

lemma nth_splice1_below:
  "0 \<le> v \<Longrightarrow> i < nat v \<Longrightarrow> v < int (length xs) \<Longrightarrow> splice1 xs v ! i = xs ! i"
  by (simp add: splice1_def nth_append)

lemma nth_splice1_above:
  "0 \<le> v \<Longrightarrow> nat v \<le> i \<Longrightarrow> v < int (length xs) \<Longrightarrow> splice1 xs v ! i = xs ! (i + 1)"
  by (auto simp add: splice1_def nth_append min_def)

lemma mirrors_deleteVersion:
  assumes "mirrors_log s q"
  shows "mirrors_log (deleteEventHistoryVersion p v s) q"
proof (cases "history_at s p")
  case None
  with assms show ?thesis
    by (simp add: deleteEventHistoryVersion_def history_at_def)
next
  case (Some h)
  show ?thesis
  proof (cases "v < 0 \<or> int (length (entries h)) \<le> v \<or> length (entries h) \<le> 1")
    case True
    with assms Some show ?thesis
      by (auto simp add: deleteEventHistoryVersion_def history_at_def Let_def)
  next
    case False
    then have v: "0 \<le> v" "v < int (length (entries h))" and len: "1 < length (entries h)"
      by auto
    have len': "length (splice1 (entries h) v) = length (entries h) - 1"
      using v by (rule length_splice1)
    show ?thesis
    proof (cases "q = p")
      case False
      with assms Some v len show ?thesis
        by (auto simp add: mirrors_log_def deleteEventHistoryVersion_def Let_def history_at_store
            history_lookup_store update_conv' js_String_inject array_get_set_other
            split: option.splits)
    next
      case True
      consider (current) "currentVersionIndex h = v"
        | (before) "v < currentVersionIndex h"
        | (after) "currentVersionIndex h < v"
        by linarith
      then show ?thesis
      proof cases
        case current
        have "0 \<le> p"
          using assms Some True by (auto simp add: mirrors_log_def array_get_def split: if_splits)
        with current Some v len len' True show ?thesis
          by (auto simp add: mirrors_log_def deleteEventHistoryVersion_def Let_def history_at_store
              history_lookup_store update_conv' array_get_set_same)
      next
        case before
        have cur: "currentVersionIndex h < int (length (entries h))"
          and log: "array_get (events s) p
            = Some (event (entries h ! nat (currentVersionIndex h)))"
          using assms Some True by (simp_all add: mirrors_log_def)
        have "splice1 (entries h) v ! nat (currentVersionIndex h - 1)
            = entries h ! (nat (currentVersionIndex h - 1) + 1)"
          using v before by (intro nth_splice1_above) simp_all
        moreover have "nat (currentVersionIndex h - 1) + 1 = nat (currentVersionIndex h)"
          using v before by simp
        ultimately show ?thesis
          using before Some v len len' True cur log
          by (auto simp add: mirrors_log_def deleteEventHistoryVersion_def Let_def history_at_store
              history_lookup_store update_conv')
      next
        case after
        have cur: "0 \<le> currentVersionIndex h"
          and log: "array_get (events s) p
            = Some (event (entries h ! nat (currentVersionIndex h)))"
          using assms Some True by (simp_all add: mirrors_log_def)
        have "splice1 (entries h) v ! nat (currentVersionIndex h)
            = entries h ! nat (currentVersionIndex h)"
          using v after cur by (intro nth_splice1_below) simp_all
        then show ?thesis
          using after Some v len len' True cur log
          by (auto simp add: mirrors_log_def deleteEventHistoryVersion_def Let_def history_at_store
              history_lookup_store update_conv')
      qed
    qed
  qed
qed

lemma mirrors_deleteEvent:
  assumes "wf_store s" and "\<forall>q. mirrors_log s q"
  shows "mirrors_log (deleteEvent p s) j"
proof (cases "0 \<le> p")
  case False
  with assms show ?thesis by (simp add: deleteEvent_def)
next
  case True
  have "mirrors_log (deleteEvent p s) j = (if j < p then mirrors_log s j else mirrors_log s (j + 1))"
    using True
    by (cases "j < p")
      (simp_all add: mirrors_log_def history_at_deleteEvent [OF True assms(1)] events_deleteEvent
        array_get_splice1 split: option.splits)
  with assms(2) show ?thesis
    by simp
qed

lemma history_inv_initial: "history_inv (initialState r)"
  by (simp add: history_inv_def wf_store_def initialState_def history_store_def index_keyed_def)


text \<open>Every reachable state satisfies both invariants.\<close>

lemma reachable_invariants: "reachable s \<Longrightarrow> history_inv s \<and> nonempty_histories s"
proof (induction rule: reachable.induct)
  case (fresh s)
  then show ?case
    by (simp add: history_inv_def wf_store_def index_keyed_def nonempty_histories_def
        all_nonempty_def)
next
  case (ensure s now p)
  then show ?case
    by (simp add: history_inv_iff wf_store_ensure mirrors_ensure nonempty_ensure)
next
  case (add s now0 now1 p e kind)
  then show ?case
    by (simp add: history_inv_iff wf_store_add mirrors_add nonempty_add)
next
  case (select s p v)
  then show ?case
    by (simp add: history_inv_iff wf_store_select mirrors_select nonempty_select)
next
  case (deleteVersion s p v)
  then show ?case
    by (simp add: history_inv_iff wf_store_deleteVersion mirrors_deleteVersion
        nonempty_deleteVersion)
next
  case (deleteEvent s p)
  then show ?case
    by (simp add: history_inv_iff wf_store_deleteEvent mirrors_deleteEvent nonempty_deleteEvent)
qed

text \<open>
  Claim C1. The invariant \<open>history_inv\<close> says that the store is well formed and that each
  of its histories has a current index within its entries whose entry holds the event of
  the log at the position of the key. It holds in the initial state (\<open>history_inv_initial\<close>),
  so in every reachable state (\<open>reachable_invariants\<close>),
  and each of \<open>ensureHistory\<close>, \<open>addVersion\<close>, \<open>selectVersion\<close>, \<open>deleteVersion\<close>
  and \<open>deleteEvent\<close> keeps it: after the operation, for every position \<open>q\<close> with a
  history, \<open>0 \<le> currentVersionIndex < length entries\<close> and the current entry's event is
  the event of the log at \<open>q\<close>.
\<close>

theorem log_mirrors_current_version:
  assumes "history_inv s"
  shows "(history_inv (ensureEventHistory now p s) \<and>
            (\<forall>q. mirrors_log (ensureEventHistory now p s) q)) \<and>
         (history_inv (addEventHistoryVersion now0 now1 p e kind s) \<and>
            (\<forall>q. mirrors_log (addEventHistoryVersion now0 now1 p e kind s) q)) \<and>
         (history_inv (selectEventHistoryVersion p v s) \<and>
            (\<forall>q. mirrors_log (selectEventHistoryVersion p v s) q)) \<and>
         (history_inv (deleteEventHistoryVersion p v s) \<and>
            (\<forall>q. mirrors_log (deleteEventHistoryVersion p v s) q)) \<and>
         (history_inv (deleteEvent p s) \<and>
            (\<forall>q. mirrors_log (deleteEvent p s) q))"
proof -
  from assms have wf: "wf_store s" and m: "\<forall>q. mirrors_log s q"
    by (simp_all add: history_inv_iff)
  have 1: "history_inv (ensureEventHistory now p s)"
    using wf m by (simp add: history_inv_iff wf_store_ensure mirrors_ensure)
  have 2: "history_inv (addEventHistoryVersion now0 now1 p e kind s)"
    using wf m by (simp add: history_inv_iff wf_store_add mirrors_add)
  have 3: "history_inv (selectEventHistoryVersion p v s)"
    using wf m by (simp add: history_inv_iff wf_store_select mirrors_select)
  have 4: "history_inv (deleteEventHistoryVersion p v s)"
    using wf m by (simp add: history_inv_iff wf_store_deleteVersion mirrors_deleteVersion)
  have 5: "history_inv (deleteEvent p s)"
    using wf m by (simp add: history_inv_iff wf_store_deleteEvent mirrors_deleteEvent)
  from 1 2 3 4 5 show ?thesis
    by (simp add: history_inv_iff)
qed

theorem log_mirrors_current_version_witness:
  "history_inv example_state \<and>
   history_inv (ensureEventHistory 5 0 example_state) \<and>
   history_inv (addEventHistoryVersion 1 2 1 (Event narration 9) regenerate example_state) \<and>
   mirrors_log (addEventHistoryVersion 1 2 1 (Event narration 9) regenerate example_state) 1 \<and>
   history_inv (selectEventHistoryVersion 1 0 example_state) \<and>
   history_inv (deleteEventHistoryVersion 1 2 example_state) \<and>
   mirrors_log (deleteEventHistoryVersion 1 2 example_state) 1 \<and>
   history_inv (deleteEvent 0 example_state) \<and>
   mirrors_log (deleteEvent 0 example_state) 0 \<and>
   history_at (deleteEvent 0 example_state) 0 = Some three_versions"
proof -
  have h: "history_inv example_state"
    by code_simp
  have at: "history_at (deleteEvent 0 example_state) 0 = Some three_versions"
    by code_simp
  note c1 = log_mirrors_current_version
    [OF h, where now = 5 and p = 0 and ?now0.0 = 1 and ?now1.0 = 2 and v = 0
       and e = "Event narration 9" and kind = regenerate]
  note c2 = log_mirrors_current_version
    [OF h, where now = 5 and p = 1 and ?now0.0 = 1 and ?now1.0 = 2 and v = 0
       and e = "Event narration 9" and kind = regenerate]
  note c3 = log_mirrors_current_version
    [OF h, where now = 5 and p = 1 and ?now0.0 = 1 and ?now1.0 = 2 and v = 2
       and e = "Event narration 9" and kind = regenerate]
  from c1 have a: "history_inv (ensureEventHistory 5 0 example_state)"
    "history_inv (deleteEvent 0 example_state)" "mirrors_log (deleteEvent 0 example_state) 0"
    by simp_all
  from c2 have b:
    "history_inv (addEventHistoryVersion 1 2 1 (Event narration 9) regenerate example_state)"
    "mirrors_log (addEventHistoryVersion 1 2 1 (Event narration 9) regenerate example_state) 1"
    "history_inv (selectEventHistoryVersion 1 0 example_state)"
    by simp_all
  from c3 have c: "history_inv (deleteEventHistoryVersion 1 2 example_state)"
    "mirrors_log (deleteEventHistoryVersion 1 2 example_state) 1"
    by simp_all
  from h at a b c show ?thesis
    by (intro conjI)
qed

section \<open>The round trip of adding and selecting\<close>

lemma array_set_set: "array_set (array_set xs i a) i b = array_set xs i b"
proof (cases "i < 0 \<or> i < int (length xs)")
  case True
  then show ?thesis
    by (auto simp add: array_set_def)
next
  case False
  let ?ys = "xs @ replicate (nat i - length xs) None"
  from False have len: "length ?ys = nat i"
    by auto
  have "(?ys @ [Some a])[length ?ys := Some b] = ?ys @ [Some b]"
    by (rule list_update_length)
  with False len show ?thesis
    by (simp add: array_set_def)
qed

lemma array_set_same: "array_get xs i = Some v \<Longrightarrow> array_set xs i v = xs"
  by (simp add: array_get_def array_set_def list_update_same_conv split: if_splits)

lemma add_at_event:
  assumes "0 \<le> p" and "array_get (events s) p = Some ev"
  shows "addEventHistoryVersion now0 now1 p e kind s
           = s\<lparr>eventHistory :=
                  Some (AList.update (js_String p)
                    ((case history_at s p of None \<Rightarrow> seed_history ev now0 | Some h0 \<Rightarrow> h0)
                       \<lparr>entries :=
                          entries (case history_at s p of None \<Rightarrow> seed_history ev now0 | Some h0 \<Rightarrow> h0)
                          @ [\<lparr>event = e, timestamp = now1, type = kind\<rparr>],
                        currentVersionIndex :=
                          int (length (entries
                            (case history_at s p of None \<Rightarrow> seed_history ev now0 | Some h0 \<Rightarrow> h0)))\<rparr>)
                    (case history_at s p of
                       None \<Rightarrow> AList.update (js_String p) (seed_history ev now0) (history_store s)
                     | Some h0 \<Rightarrow> history_store s)),
                events := array_set (events s) p e\<rparr>"
  using assms
  by (simp add: addEventHistoryVersion_def Let_def update_conv' history_at_store
      split: option.splits)

lemma select_at:
  assumes "history_at s p = Some h" and "0 \<le> v" and "v < int (length (entries h))"
  shows "selectEventHistoryVersion p v s
           = s\<lparr>eventHistory :=
                  Some (AList.update (js_String p) (h\<lparr>currentVersionIndex := v\<rparr>)
                          (history_store s)),
                events := array_set (events s) p (event (entries h ! nat v))\<rparr>"
  using assms by (simp add: selectEventHistoryVersion_def Let_def history_at_def)

text \<open>
  Claim C8. Where a position \<open>p\<close> holds an event \<open>ev\<close>, adding the version \<open>e\<close> of
  kind \<open>edit\<close> leaves at \<open>p\<close> a history whose last entry is the new version and is
  current, with \<open>e\<close> in the log (the seed made of \<open>ev\<close> comes first when there was no
  history). Selecting version 0 then makes the first entry current and writes its event to
  the log at \<open>p\<close>; selecting the last index of the history after that gives back the
  state that \<open>addVersion\<close> had left, so the log holds \<open>e\<close> at \<open>p\<close> again.
\<close>

theorem addVersion_select_roundtrip:
  assumes "0 \<le> p" and "array_get (events s) p = Some ev"
  shows "\<exists>h. history_at (addEventHistoryVersion now0 now1 p e edit s) p = Some h \<and>
           entries h \<noteq> [] \<and>
           last (entries h) = \<lparr>event = e, timestamp = now1, type = edit\<rparr> \<and>
           currentVersionIndex h = int (length (entries h)) - 1 \<and>
           (history_at s p = None \<longrightarrow>
              entries h = [\<lparr>event = ev, timestamp = now0,
                             type = (if event_type ev = action then edit else regenerate)\<rparr>,
                           \<lparr>event = e, timestamp = now1, type = edit\<rparr>]) \<and>
           array_get (events (addEventHistoryVersion now0 now1 p e edit s)) p = Some e \<and>
           history_at (selectEventHistoryVersion p 0 (addEventHistoryVersion now0 now1 p e edit s)) p
             = Some (h\<lparr>currentVersionIndex := 0\<rparr>) \<and>
           array_get
             (events (selectEventHistoryVersion p 0 (addEventHistoryVersion now0 now1 p e edit s))) p
             = Some (event (entries h ! 0)) \<and>
           selectEventHistoryVersion p (int (length (entries h)) - 1)
             (selectEventHistoryVersion p 0 (addEventHistoryVersion now0 now1 p e edit s))
             = addEventHistoryVersion now0 now1 p e edit s \<and>
           array_get
             (events (selectEventHistoryVersion p (int (length (entries h)) - 1)
                        (selectEventHistoryVersion p 0
                           (addEventHistoryVersion now0 now1 p e edit s)))) p
           = Some e"
proof -
  define s1 where "s1 = addEventHistoryVersion now0 now1 p e edit s"
  define s2 where "s2 = selectEventHistoryVersion p 0 s1"
  let ?key = "js_String p"
  define base where "base = (case history_at s p of None \<Rightarrow> seed_history ev now0 | Some h0 \<Rightarrow> h0)"
  define h where "h = base\<lparr>entries := entries base @ [\<lparr>event = e, timestamp = now1, type = edit\<rparr>],
                           currentVersionIndex := int (length (entries base))\<rparr>"
  define store where "store = AList.update ?key h
      (case history_at s p of
         None \<Rightarrow> AList.update ?key (seed_history ev now0) (history_store s)
       | Some h0 \<Rightarrow> history_store s)"
  have s1: "s1 = s\<lparr>eventHistory := Some store, events := array_set (events s) p e\<rparr>"
    unfolding s1_def store_def h_def base_def by (rule add_at_event [OF assms])
  have look: "map_of store ?key = Some h"
    by (simp add: store_def update_conv')
  have ne: "entries h \<noteq> []"
    and lst: "last (entries h) = \<lparr>event = e, timestamp = now1, type = edit\<rparr>"
    and cur: "currentVersionIndex h = int (length (entries h)) - 1"
    by (simp_all add: h_def)
  have seed: "history_at s p = None \<longrightarrow>
              entries h = [\<lparr>event = ev, timestamp = now0,
                             type = (if event_type ev = action then edit else regenerate)\<rparr>,
                           \<lparr>event = e, timestamp = now1, type = edit\<rparr>]"
    by (simp add: h_def base_def seed_history_def)
  have h1: "history_at s1 p = Some h"
    by (simp add: s1 history_at_def look)
  have log1: "array_get (events s1) p = Some e"
    using assms(1) by (simp add: s1 array_get_set_same)
  have s2: "s2 = s\<lparr>eventHistory :=
                     Some (AList.update ?key (h\<lparr>currentVersionIndex := 0\<rparr>) store),
                   events := array_set (events s) p (event (entries h ! 0))\<rparr>"
    unfolding s2_def using select_at [OF h1, of 0] ne
    by (simp add: s1 array_set_set)
  have h2: "history_at s2 p = Some (h\<lparr>currentVersionIndex := 0\<rparr>)"
    by (simp add: s2 history_at_def update_conv')
  have log2: "array_get (events s2) p = Some (event (entries h ! 0))"
    using assms(1) by (simp add: s2 array_get_set_same)
  let ?last = "int (length (entries h)) - 1"
  have elast: "event (entries h ! nat ?last) = e"
    using ne lst by (simp add: last_conv_nth nat_diff_distrib')
  have same: "h\<lparr>currentVersionIndex := ?last\<rparr> = h"
    using cur by simp
  have upd: "AList.update ?key h store = store"
    using look by (rule update_triv)
  have "selectEventHistoryVersion p ?last s2
      = s2\<lparr>eventHistory :=
             Some (AList.update ?key (h\<lparr>currentVersionIndex := 0, currentVersionIndex := ?last\<rparr>)
                     (history_store s2)),
           events := array_set (events s2) p
                       (event (entries (h\<lparr>currentVersionIndex := 0\<rparr>) ! nat ?last))\<rparr>"
    using select_at [OF h2, of ?last] ne by simp
  also have "\<dots> = s1"
    by (simp add: s2 s1 elast same upd array_set_set)
  finally have s3: "selectEventHistoryVersion p ?last s2 = s1" .
  from h1 ne lst cur seed log1 h2 log2 s3 show ?thesis
    unfolding s1_def s2_def by (intro exI [of _ h] conjI) simp_all
qed


theorem addVersion_select_roundtrip_witness:
  "(0::int) \<le> 0 \<and> array_get (events example_state) 0 = Some (Event action 7) \<and>
   history_at example_state 0 = None \<and>
   array_get
     (events (selectEventHistoryVersion 0 0
                (addEventHistoryVersion 1 2 0 (Event action 8) edit example_state))) 0
     = Some (Event action 7) \<and>
   selectEventHistoryVersion 0 1
     (selectEventHistoryVersion 0 0
        (addEventHistoryVersion 1 2 0 (Event action 8) edit example_state))
     = addEventHistoryVersion 1 2 0 (Event action 8) edit example_state \<and>
   array_get
     (events (selectEventHistoryVersion 0 1
                (selectEventHistoryVersion 0 0
                   (addEventHistoryVersion 1 2 0 (Event action 8) edit example_state)))) 0
     = Some (Event action 8)"
proof -
  have a: "(0::int) \<le> 0"
    by simp
  have b: "array_get (events example_state) 0 = Some (Event action (7::nat))"
    by code_simp
  have n: "history_at example_state 0 = None"
    by code_simp
  note c = addVersion_select_roundtrip
    [OF a b, where ?now0.0 = 1 and ?now1.0 = 2 and e = "Event action 8"]
  from c n obtain h :: "nat event_history" where
    h: "entries h = [\<lparr>event = Event action 7, timestamp = 1, type = edit\<rparr>,
                     \<lparr>event = Event action 8, timestamp = 2, type = edit\<rparr>]"
    and first: "array_get
      (events (selectEventHistoryVersion 0 0
                 (addEventHistoryVersion 1 2 0 (Event action 8) edit example_state))) 0
      = Some (event (entries h ! 0))"
    and again: "selectEventHistoryVersion 0 (int (length (entries h)) - 1)
      (selectEventHistoryVersion 0 0
         (addEventHistoryVersion 1 2 0 (Event action 8) edit example_state))
      = addEventHistoryVersion 1 2 0 (Event action 8) edit example_state"
    and log: "array_get
      (events (selectEventHistoryVersion 0 (int (length (entries h)) - 1)
                 (selectEventHistoryVersion 0 0
                    (addEventHistoryVersion 1 2 0 (Event action 8) edit example_state)))) 0
      = Some (Event action 8)"
    by auto
  from first h have 1: "array_get
      (events (selectEventHistoryVersion 0 0
                 (addEventHistoryVersion 1 2 0 (Event action 8) edit example_state))) 0
      = Some (Event action 7)"
    by simp
  from again h have 2: "selectEventHistoryVersion 0 1
      (selectEventHistoryVersion 0 0
         (addEventHistoryVersion 1 2 0 (Event action 8) edit example_state))
      = addEventHistoryVersion 1 2 0 (Event action 8) edit example_state"
    by simp
  from log h have 3: "array_get
      (events (selectEventHistoryVersion 0 1
                 (selectEventHistoryVersion 0 0
                    (addEventHistoryVersion 1 2 0 (Event action 8) edit example_state)))) 0
      = Some (Event action 8)"
    by simp
  from a b n 1 2 3 show ?thesis
    by (intro conjI)
qed

section \<open>Calls that are ignored\<close>

lemma wf_store_negative: "wf_store s \<Longrightarrow> p < 0 \<Longrightarrow> history_at s p = None"
proof (rule ccontr)
  assume wf: "wf_store s" and p: "p < 0" and "history_at s p \<noteq> None"
  then obtain h where "map_of (history_store s) (js_String p) = Some h"
    by (auto simp add: history_at_store)
  then have "js_String p \<in> fst ` set (history_store s)"
    by (force dest: map_of_SomeD)
  with wf obtain n where "0 \<le> n" "js_String p = js_String n"
    by (auto simp add: wf_store_def index_keyed_iff)
  with p show False
    by (simp add: js_String_inject)
qed

lemma select_ignored:
  "history_at s p = None \<or>
   (\<exists>h. history_at s p = Some h \<and> (v < 0 \<or> int (length (entries h)) \<le> v)) \<Longrightarrow>
   selectEventHistoryVersion p v s = s"
  by (auto simp add: selectEventHistoryVersion_def history_at_def Let_def)

lemma deleteVersion_ignored:
  "history_at s p = None \<or>
   (\<exists>h. history_at s p = Some h \<and>
        (v < 0 \<or> int (length (entries h)) \<le> v \<or> length (entries h) \<le> 1)) \<Longrightarrow>
   deleteEventHistoryVersion p v s = s"
  by (auto simp add: deleteEventHistoryVersion_def history_at_def Let_def)

lemma ensure_present: "history_at s p \<noteq> None \<Longrightarrow> ensureEventHistory now p s = s"
  by (auto simp add: ensureEventHistory_def history_at_def history_lookup_def history_store_def
      Let_def split: option.splits)

lemma ensure_without_event:
  assumes "array_get (events s) p = None"
  shows "events (ensureEventHistory now p s) = events s \<and>
         history_store (ensureEventHistory now p s) = history_store s \<and>
         (\<forall>k. history_lookup (ensureEventHistory now p s) k = history_lookup s k) \<and>
         historyPagination (ensureEventHistory now p s) = historyPagination s \<and>
         rest (ensureEventHistory now p s) = rest s"
  using assms
  by (simp add: ensureEventHistory_def Let_def history_lookup_store split: option.splits)

lemma add_without_event:
  assumes "array_get (events s) p = None" and "history_at s p = None"
  shows "events (addEventHistoryVersion now0 now1 p e kind s) = events s \<and>
         history_store (addEventHistoryVersion now0 now1 p e kind s) = history_store s \<and>
         (\<forall>k. history_lookup (addEventHistoryVersion now0 now1 p e kind s) k = history_lookup s k) \<and>
         historyPagination (addEventHistoryVersion now0 now1 p e kind s) = historyPagination s \<and>
         rest (addEventHistoryVersion now0 now1 p e kind s) = rest s"
  using assms
  by (simp add: addEventHistoryVersion_def Let_def history_at_def history_lookup_store)

text \<open>
  The two reads of an entry's event are reads of an existing entry, so none of the
  operations can fail on a missing entry: \<open>selectVersion\<close> reads at the index it has
  checked, and \<open>deleteVersion\<close> reads the shortened list at an index below its length.
\<close>

lemma deleteVersion_read_in_range:
  assumes "0 \<le> v" and "v < int (length xs)" and "1 < length xs"
  shows "nat (max 0 (v - 1)) < length (splice1 xs v)"
  using assms length_splice1 [of v xs] by auto

text \<open>
  An ignored call of \<open>ensureHistory\<close> or \<open>addVersion\<close> at a position that is not
  negative has still run \<^verbatim>\<open>if (!state.eventHistory) state.eventHistory = {}\<close>: a
  store that was undefined is the empty object afterwards, with no entry as before.
\<close>

lemma ensure_defines_store:
  "0 \<le> p \<Longrightarrow> eventHistory s = None \<Longrightarrow> array_get (events s) p = None \<Longrightarrow>
   ensureEventHistory now p s = s\<lparr>eventHistory := Some []\<rparr>"
  by (simp add: ensureEventHistory_def Let_def history_store_def)

text \<open>
  Claim C6. The calls that fail validation are ignored: they return the state they were
  given (the operations are total, there is no error result), so neither the event log nor
  the history store changes.
  \<^item> A negative position: \<open>ensureHistory\<close> and \<open>addVersion\<close> return at once;
    \<open>selectVersion\<close> and \<open>deleteVersion\<close> find no history, the keys of a well-formed
    store being keys of positions.
  \<^item> A missing history, or a version index out of the range of the entries:
    \<open>selectVersion\<close> and \<open>deleteVersion\<close> return the state.
  \<^item> The last remaining version: \<open>deleteVersion\<close> returns the state.
  \<^item> A position out of the range of the log (no event there): \<open>ensureHistory\<close>, and
    \<open>addVersion\<close> where there is no history either, leave the log, the entries of the
    store and every other field as they are.
\<close>

theorem invalid_calls_ignored:
  "(p < 0 \<longrightarrow>
      ensureEventHistory now p s = s \<and> addEventHistoryVersion now0 now1 p e kind s = s) \<and>
   (p < 0 \<and> wf_store s \<longrightarrow>
      selectEventHistoryVersion p v s = s \<and> deleteEventHistoryVersion p v s = s) \<and>
   (history_at s p = None \<longrightarrow>
      selectEventHistoryVersion p v s = s \<and> deleteEventHistoryVersion p v s = s) \<and>
   (\<forall>h. history_at s p = Some h \<and> (v < 0 \<or> int (length (entries h)) \<le> v) \<longrightarrow>
      selectEventHistoryVersion p v s = s \<and> deleteEventHistoryVersion p v s = s) \<and>
   (\<forall>h. history_at s p = Some h \<and> length (entries h) \<le> 1 \<longrightarrow>
      deleteEventHistoryVersion p v s = s) \<and>
   (array_get (events s) p = None \<longrightarrow>
      events (ensureEventHistory now p s) = events s \<and>
      history_store (ensureEventHistory now p s) = history_store s \<and>
      (\<forall>k. history_lookup (ensureEventHistory now p s) k = history_lookup s k) \<and>
      historyPagination (ensureEventHistory now p s) = historyPagination s \<and>
      rest (ensureEventHistory now p s) = rest s) \<and>
   (array_get (events s) p = None \<and> history_at s p = None \<longrightarrow>
      events (addEventHistoryVersion now0 now1 p e kind s) = events s \<and>
      history_store (addEventHistoryVersion now0 now1 p e kind s) = history_store s \<and>
      (\<forall>k. history_lookup (addEventHistoryVersion now0 now1 p e kind s) k = history_lookup s k) \<and>
      historyPagination (addEventHistoryVersion now0 now1 p e kind s) = historyPagination s \<and>
      rest (addEventHistoryVersion now0 now1 p e kind s) = rest s)"
proof -
  have neg: "p < 0 \<longrightarrow>
      ensureEventHistory now p s = s \<and> addEventHistoryVersion now0 now1 p e kind s = s"
    by (simp add: ensureEventHistory_def addEventHistoryVersion_def)
  have neg': "p < 0 \<and> wf_store s \<longrightarrow>
      selectEventHistoryVersion p v s = s \<and> deleteEventHistoryVersion p v s = s"
    using wf_store_negative [of s p] select_ignored [of s p v] deleteVersion_ignored [of s p v]
    by blast
  have missing: "history_at s p = None \<longrightarrow>
      selectEventHistoryVersion p v s = s \<and> deleteEventHistoryVersion p v s = s"
    using select_ignored [of s p v] deleteVersion_ignored [of s p v] by blast
  have range: "\<forall>h. history_at s p = Some h \<and> (v < 0 \<or> int (length (entries h)) \<le> v) \<longrightarrow>
      selectEventHistoryVersion p v s = s \<and> deleteEventHistoryVersion p v s = s"
    using select_ignored [of s p v] deleteVersion_ignored [of s p v] by blast
  have last: "\<forall>h. history_at s p = Some h \<and> length (entries h) \<le> 1 \<longrightarrow>
      deleteEventHistoryVersion p v s = s"
    using deleteVersion_ignored [of s p v] by blast
  from neg neg' missing range last ensure_without_event [of s p now]
    add_without_event [of s p now0 now1 e kind]
  show ?thesis
    by (intro conjI impI) (simp_all only: simp_thms)
qed


theorem invalid_calls_ignored_witness:
  "(- 1 :: int) < 0 \<and> wf_store example_state \<and>
   ensureEventHistory 5 (- 1) example_state = example_state \<and>
   addEventHistoryVersion 1 2 (- 1) (Event action 8) edit example_state = example_state \<and>
   selectEventHistoryVersion (- 1) 0 example_state = example_state \<and>
   deleteEventHistoryVersion (- 1) 0 example_state = example_state \<and>
   history_at example_state 0 = None \<and>
   selectEventHistoryVersion 0 0 example_state = example_state \<and>
   deleteEventHistoryVersion 0 0 example_state = example_state \<and>
   history_at example_state 1 = Some three_versions \<and>
   int (length (entries three_versions)) \<le> 3 \<and>
   selectEventHistoryVersion 1 3 example_state = example_state \<and>
   deleteEventHistoryVersion 1 3 example_state = example_state \<and>
   history_at sole_state 0 = Some (sole_history 0) \<and> length (entries (sole_history 0)) \<le> 1 \<and>
   deleteEventHistoryVersion 0 0 sole_state = sole_state \<and>
   array_get (events example_state) 5 = None \<and>
   events (ensureEventHistory 5 5 example_state) = events example_state \<and>
   history_store (ensureEventHistory 5 5 example_state) = history_store example_state"
proof -
  have n: "(- 1 :: int) < 0"
    by simp
  have wf: "wf_store example_state"
    by code_simp
  have none: "history_at example_state 0 = None"
    by code_simp
  have some: "history_at example_state 1 = Some three_versions"
    by code_simp
  have len: "int (length (entries three_versions)) \<le> 3"
    by code_simp
  have sole: "history_at sole_state 0 = Some (sole_history 0)"
    by code_simp
  have one: "length (entries (sole_history 0)) \<le> 1"
    by code_simp
  have hole: "array_get (events example_state) 5 = None"
    by code_simp
  note a = invalid_calls_ignored
    [where s = example_state and p = "- 1" and v = 0 and now = 5 and ?now0.0 = 1 and ?now1.0 = 2
       and e = "Event action 8" and kind = edit]
  note b = invalid_calls_ignored
    [where s = example_state and p = 0 and v = 0 and now = 5 and ?now0.0 = 1 and ?now1.0 = 2
       and e = "Event action 8" and kind = edit]
  note c = invalid_calls_ignored
    [where s = example_state and p = 1 and v = 3 and now = 5 and ?now0.0 = 1 and ?now1.0 = 2
       and e = "Event action 8" and kind = edit]
  note d = invalid_calls_ignored
    [where s = sole_state and p = 0 and v = 0 and now = 5 and ?now0.0 = 1 and ?now1.0 = 2
       and e = "Event action 8" and kind = edit]
  note f = invalid_calls_ignored
    [where s = example_state and p = 5 and v = 0 and now = 5 and ?now0.0 = 1 and ?now1.0 = 2
       and e = "Event action 8" and kind = edit]
  from a n wf have 1:
    "ensureEventHistory 5 (- 1) example_state = example_state"
    "addEventHistoryVersion 1 2 (- 1) (Event action 8) edit example_state = example_state"
    "selectEventHistoryVersion (- 1) 0 example_state = example_state"
    "deleteEventHistoryVersion (- 1) 0 example_state = example_state"
    by simp_all
  from b none have 2:
    "selectEventHistoryVersion 0 0 example_state = example_state"
    "deleteEventHistoryVersion 0 0 example_state = example_state"
    by simp_all
  from c some len have 3:
    "selectEventHistoryVersion 1 3 example_state = example_state"
    "deleteEventHistoryVersion 1 3 example_state = example_state"
    by simp_all
  from d sole one have 4: "deleteEventHistoryVersion 0 0 sole_state = sole_state"
    by simp
  from f hole have 5:
    "events (ensureEventHistory 5 5 example_state) = events example_state"
    "history_store (ensureEventHistory 5 5 example_state) = history_store example_state"
    by simp_all
  from n wf none some len sole one hole 1 2 3 4 5 show ?thesis
    by (intro conjI)
qed


text \<open>
  \<open>selectVersion\<close> and \<open>deleteVersion\<close> have no test of the position of their own:
  on a store that is not well formed, with a history under the key of \<open>- 1\<close>, they
  change it. No operation creates such a key (\<open>wf_store\<close> is kept by all of them).
\<close>

lemma negative_key_not_ignored:
  "\<not> wf_store negative_key_state"
  "selectEventHistoryVersion (- 1) 0 negative_key_state \<noteq> negative_key_state"
  "deleteEventHistoryVersion (- 1) 0 negative_key_state \<noteq> negative_key_state"
  by code_simp+

section \<open>Pages of a history\<close>










text \<open>
  A negative page size with a first bound that is not negative makes the second bound
  count from the end: the page 0 of size \<open>- 5\<close> of twelve entries holds the first seven.
\<close>

lemma pages_outside_the_domain:
  "getEventHistoryPage 0 0 (- 5) twelve_state = map version [0..<7]"
  "getEventHistoryPage 0 (- 1) 5 twelve_state = []"
  "getEventHistoryPage 0 1 0 twelve_state = []"
  by code_simp+

section \<open>Asynchronous steps\<close>

lemma setAsync_commits:
  "thrown (updater stored stored) = None \<Longrightarrow>
   setAsync updater stored
     = (Inr (), store_after (updater stored stored) ++ draft_after (updater stored stored))"
  by (simp add: setAsync_def Let_def set_state_def)


lemma map_add_covered: "dom m \<subseteq> dom n \<Longrightarrow> m ++ n = n"
proof
  fix k
  assume sub: "dom m \<subseteq> dom n"
  show "(m ++ n) k = n k"
  proof (cases "n k")
    case None
    with sub have "m k = None"
      by (auto simp add: dom_def)
    with None show ?thesis
      by (simp add: map_add_def)
  next
    case (Some v)
    then show ?thesis
      by (simp add: map_add_def)
  qed
qed




lemma setAsync_commits_example:
  "setAsync passing_updater partial_snapshot = (Inr (), partial_snapshot(''events'' \<mapsto> 2))"
  by (simp add: setAsync_commits passing_updater_def map_add_covered)

end
